theory Spec2Isabelle
  imports Main "HOL-Library.Word" "HOL-Library.AList"
begin

unbundle bit_operations_syntax

section \<open>Combobox (Open3D/GUI/Combobox.cpp)\<close>

text \<open>
  \<^verbatim>\<open>Combobox::Impl\<close> holds the item strings, the selected index (a C \<^verbatim>\<open>int\<close>, here a
  32-bit word read through \<open>sint\<close>) and the value-changed callback. The callback is a
  \<^verbatim>\<open>std::function\<close>: the model keeps whether one is installed and, as a log, every
  invocation with its two arguments (newest first). The fields carry the source's names
  without the trailing underscore, which Isabelle does not accept in a name.
\<close>

record Combobox =
  cb_items :: "string list"
  current_index :: "32 word"
  on_value_changed :: bool
  fired :: "(string \<times> 32 word) list"

text \<open>The conversion \<^verbatim>\<open>int(impl_->items_.size())\<close>: the size modulo \<open>2 ^ 32\<close>, read signed.\<close>

definition int_of_size :: "nat \<Rightarrow> 32 word" where
  "int_of_size n = word_of_nat n"

text \<open>A \<^verbatim>\<open>std::vector\<close> read at an index: outside the vector the behaviour is undefined,
  which the model reports as \<open>None\<close>.\<close>

definition vec_at :: "'a list \<Rightarrow> nat \<Rightarrow> 'a option" where
  "vec_at xs i = (if i < length xs then Some (xs ! i) else None)"

definition ClearItems :: "Combobox \<Rightarrow> Combobox" where
  "ClearItems c = c\<lparr>cb_items := [], current_index := 0\<rparr>"

definition AddItem :: "string \<Rightarrow> Combobox \<Rightarrow> Combobox" where
  "AddItem name c = c\<lparr>cb_items := cb_items c @ [name]\<rparr>"

definition GetSelectedIndex :: "Combobox \<Rightarrow> 32 word" where
  "GetSelectedIndex c = current_index c"

definition GetSelectedValue :: "Combobox \<Rightarrow> string option" where
  "GetSelectedValue c =
     (if 0 \<le> sint (current_index c) \<and>
         sint (current_index c) < sint (int_of_size (length (cb_items c)))
      then vec_at (cb_items c) (nat (sint (current_index c)))
      else Some [])"

definition SetSelectedIndex :: "32 word \<Rightarrow> Combobox \<Rightarrow> Combobox" where
  "SetSelectedIndex index c =
     (if 0 \<le> sint index \<and> sint index < sint (int_of_size (length (cb_items c)))
      then c\<lparr>current_index := index\<rparr>
      else c)"

text \<open>The loop of \<^verbatim>\<open>SetSelectedValue\<close> over \<^verbatim>\<open>i = 0 .. size-1\<close>: the remaining items and
  the running index \<open>i\<close>; the first equal item ends it through \<^verbatim>\<open>SetSelectedIndex(i)\<close>,
  where the \<^verbatim>\<open>size_t\<close> index is converted to \<^verbatim>\<open>int\<close>.\<close>

fun select_first :: "string \<Rightarrow> string list \<Rightarrow> nat \<Rightarrow> Combobox \<Rightarrow> Combobox" where
  "select_first svalue [] i c = c"
| "select_first svalue (item # rest) i c =
     (if item = svalue then SetSelectedIndex (word_of_nat i) c
      else select_first svalue rest (Suc i) c)"

definition SetSelectedValue :: "string \<Rightarrow> Combobox \<Rightarrow> Combobox" where
  "SetSelectedValue svalue c = select_first svalue (cb_items c) 0 c"

definition SetOnValueChanged :: "bool \<Rightarrow> Combobox \<Rightarrow> Combobox" where
  "SetOnValueChanged f c = c\<lparr>on_value_changed := f\<rparr>"

text \<open>
  The part of \<^verbatim>\<open>Combobox::Draw\<close> that changes the widget: inside an open combo, every item
  whose \<^verbatim>\<open>ImGui::Selectable\<close> reports a click (the argument \<open>clicked\<close>, what the GUI
  library answers for item \<open>i\<close>) becomes the selection, and the callback, when installed,
  is invoked with the selected value and the index. This is the only place of the file
  that invokes the callback.
\<close>

definition select_by_user :: "nat \<Rightarrow> Combobox \<Rightarrow> Combobox" where
  "select_by_user i c =
     (let c1 = c\<lparr>current_index := word_of_nat i\<rparr> in
      if on_value_changed c1
      then (case GetSelectedValue c1 of
              Some v \<Rightarrow> c1\<lparr>fired := (v, word_of_nat i) # fired c1\<rparr>
            | None \<Rightarrow> c1)
      else c1)"

fun draw_items :: "(nat \<Rightarrow> bool) \<Rightarrow> nat \<Rightarrow> nat \<Rightarrow> Combobox \<times> bool \<Rightarrow> Combobox \<times> bool" where
  "draw_items clicked i 0 acc = acc"
| "draw_items clicked i (Suc n) (c, valueChanged) =
     draw_items clicked (Suc i) n
       (if clicked i then (select_by_user i c, True) else (c, valueChanged))"

text \<open>\<open>Draw\<close> returns the widget and whether a redraw is requested
  (\<^verbatim>\<open>valueChanged || didOpen\<close>); \<open>wasOpen\<close> and \<open>beginCombo\<close> are the GUI library's answers
  to \<^verbatim>\<open>IsPopupOpen\<close> and \<^verbatim>\<open>BeginCombo\<close>.\<close>

definition Draw :: "bool \<Rightarrow> bool \<Rightarrow> (nat \<Rightarrow> bool) \<Rightarrow> Combobox \<Rightarrow> Combobox \<times> bool" where
  "Draw wasOpen beginCombo clicked c =
     (if beginCombo
      then (let didOpen = \<not> wasOpen;
                (c', valueChanged) = draw_items clicked 0 (length (cb_items c)) (c, False)
            in (c', valueChanged \<or> didOpen))
      else (c, False))"

section \<open>Menu (Open3D/GUI/Menu.cpp)\<close>

text \<open>
  \<^verbatim>\<open>Menu::Impl\<close> is a vector of \<^verbatim>\<open>MenuItem\<close> and the table \<^verbatim>\<open>id2idx_\<close> from item
  identifiers to positions in the vector; an item may own a submenu, so menus form a
  tree. \<^verbatim>\<open>submenu_\<close> and \<^verbatim>\<open>submenu_impl_\<close> are set and cleared together and are one
  optional field here. The hash table is an association list read with \<open>map_of\<close> and
  written with \<open>AList.update\<close>.
\<close>

datatype MenuItem =
  MenuItem (item_id: int) (name: string) (shortcut_key: int) (submenu: "Menu option")
    (is_enabled: bool) (is_checked: bool) (is_separator: bool)
and Menu = Menu (menu_items: "MenuItem list") (id2idx: "(int \<times> nat) list")







text \<open>
  \<^verbatim>\<open>FindMenuItem\<close> returns a pointer to an item of this menu or of a menu below it. In
  the tree the pointer is the path to the item: the position in this menu's vector,
  or the position of a submenu entry followed by the path inside that submenu.
  \<open>find_in_submenus\<close> is the \<^verbatim>\<open>for\<close> loop over the items, with the position of its
  first item.
\<close>

fun FindMenuItem :: "Menu \<Rightarrow> int \<Rightarrow> nat list option"
and find_in_submenus :: "MenuItem list \<Rightarrow> nat \<Rightarrow> int \<Rightarrow> nat list option" where
  "FindMenuItem (Menu items tbl) itemId =
     (case map_of tbl itemId of
        Some i \<Rightarrow> Some [i]
      | None \<Rightarrow> find_in_submenus items 0 itemId)"
| "find_in_submenus [] n itemId = None"
| "find_in_submenus (MenuItem i nm k None e c sp # rest) n itemId =
     find_in_submenus rest (Suc n) itemId"
| "find_in_submenus (MenuItem i nm k (Some sub) e c sp # rest) n itemId =
     (case FindMenuItem sub itemId of
        Some p \<Rightarrow> Some (n # p)
      | None \<Rightarrow> find_in_submenus rest (Suc n) itemId)"

text \<open>Reading and writing through such a pointer.\<close>

fun item_at :: "Menu \<Rightarrow> nat list \<Rightarrow> MenuItem option" where
  "item_at m [] = None"
| "item_at m [i] = vec_at (menu_items m) i"
| "item_at m (i # j # p) =
     (case vec_at (menu_items m) i of
        None \<Rightarrow> None
      | Some it \<Rightarrow> (case submenu it of None \<Rightarrow> None | Some sub \<Rightarrow> item_at sub (j # p)))"

fun with_submenu :: "Menu \<Rightarrow> MenuItem \<Rightarrow> MenuItem" where
  "with_submenu sub (MenuItem i nm k s e c sp) = MenuItem i nm k (Some sub) e c sp"

fun write_at :: "(MenuItem \<Rightarrow> MenuItem) \<Rightarrow> nat list \<Rightarrow> Menu \<Rightarrow> Menu" where
  "write_at f [] m = m"
| "write_at f [i] m =
     (if i < length (menu_items m)
      then Menu ((menu_items m)[i := f (menu_items m ! i)]) (id2idx m)
      else m)"
| "write_at f (i # j # p) m =
     (case vec_at (menu_items m) i of
        None \<Rightarrow> m
      | Some it \<Rightarrow>
          (case submenu it of
             None \<Rightarrow> m
           | Some sub \<Rightarrow>
               Menu ((menu_items m)[i := with_submenu (write_at f (j # p) sub) it])
                    (id2idx m)))"



definition IsEnabled :: "Menu \<Rightarrow> int \<Rightarrow> bool" where
  "IsEnabled m itemId =
     (case FindMenuItem m itemId of
        Some p \<Rightarrow> (case item_at m p of Some it \<Rightarrow> is_enabled it | None \<Rightarrow> False)
      | None \<Rightarrow> False)"


definition IsChecked :: "Menu \<Rightarrow> int \<Rightarrow> bool" where
  "IsChecked m itemId =
     (case FindMenuItem m itemId of
        Some p \<Rightarrow> (case item_at m p of Some it \<Rightarrow> is_checked it | None \<Rightarrow> False)
      | None \<Rightarrow> False)"






subsection \<open>Notions used to state the properties of menus\<close>



section \<open>ImguiFilamentBridge (Open3D/GUI/ImguiFilamentBridge.cpp)\<close>

subsection \<open>What the bridge receives from outside\<close>

text \<open>
  The clip rectangles and the display metrics are C \<^verbatim>\<open>float\<close>s. The bridge multiplies and
  subtracts them and converts them to integers; it never looks inside one. The model
  leaves the type \<open>'f\<close> of floats open and takes the operations the code uses from a
  \<open>platform\<close>:
  \<^item> \<open>fl_mul\<close>, \<open>fl_sub\<close>: float multiplication and subtraction, \<open>fl_of_int\<close>: the
    conversion of an \<^verbatim>\<open>int\<close> operand to \<^verbatim>\<open>float\<close>;
  \<^item> \<open>fl_trunc\<close>: the value of a float with its fractional part discarded (\<open>None\<close> for
    an infinity or a NaN). C++ defines a float-to-integer conversion as this value when
    the destination type can represent it and leaves it undefined otherwise;
    \<open>out_of_range_u16\<close> and \<open>out_of_range_int\<close> are what the compiled conversion yields
    in the undefined case;
  \<^item> \<open>key_order\<close>: the order in which a \<^verbatim>\<open>std::unordered_map\<close> that received the given
    keys is iterated (each distinct key once, in an order the library chooses);
  \<^item> \<open>has_threading\<close>: the compile-time switch \<^verbatim>\<open>UTILS_HAS_THREADING\<close>.
\<close>

record 'f platform =
  fl_mul :: "'f \<Rightarrow> 'f \<Rightarrow> 'f"
  fl_sub :: "'f \<Rightarrow> 'f \<Rightarrow> 'f"
  fl_of_int :: "int \<Rightarrow> 'f"
  fl_trunc :: "'f \<Rightarrow> int option"
  out_of_range_u16 :: "'f \<Rightarrow> 16 word"
  out_of_range_int :: "'f \<Rightarrow> int"
  key_order :: "64 word list \<Rightarrow> 64 word list"
  has_threading :: bool

definition platform_ok :: "'f platform \<Rightarrow> bool" where
  "platform_ok pf = (\<forall>ks. distinct (key_order pf ks) \<and> set (key_order pf ks) = set ks)"

text \<open>The conversions \<^verbatim>\<open>(uint16_t)v\<close> and \<^verbatim>\<open>(int)v\<close> of a float \<open>v\<close>.\<close>

definition to_uint16 :: "'f platform \<Rightarrow> 'f \<Rightarrow> 16 word" where
  "to_uint16 pf v =
     (case fl_trunc pf v of
        Some t \<Rightarrow> if 0 \<le> t \<and> t \<le> 65535 then word_of_int t else out_of_range_u16 pf v
      | None \<Rightarrow> out_of_range_u16 pf v)"

definition to_int :: "'f platform \<Rightarrow> 'f \<Rightarrow> int" where
  "to_int pf v =
     (case fl_trunc pf v of
        Some t \<Rightarrow> if - (2 ^ 31) \<le> t \<and> t < 2 ^ 31 then t else out_of_range_int pf v
      | None \<Rightarrow> out_of_range_int pf v)"

text \<open>Dear ImGui's data, as far as \<^verbatim>\<open>update\<close> reads it. \<open>UserCallback\<close> is whether the
  command's callback pointer is set; the buffer sizes are element counts.\<close>

datatype 'f ImVec2 = ImVec2 (vec2_x: 'f) (vec2_y: 'f)

datatype 'f ImVec4 = ImVec4 (vec_x: 'f) (vec_y: 'f) (vec_z: 'f) (vec_w: 'f)

record 'f ImDrawCmd =
  ElemCount :: nat
  ClipRect :: "'f ImVec4"
  UserCallback :: bool

record 'f ImDrawList =
  CmdBuffer :: "'f ImDrawCmd list"
  VtxBuffer_Size :: nat
  IdxBuffer_Size :: nat

record 'f ImDrawData =
  CmdLists :: "'f ImDrawList list"

record 'f ImGuiIO =
  DisplaySize :: "'f ImVec2"
  DisplayFramebufferScale :: "'f ImVec2"

definition CmdListsCount :: "'f ImDrawData \<Rightarrow> nat" where
  "CmdListsCount d = length (CmdLists d)"

text \<open>\<^verbatim>\<open>sizeof(ImDrawVert)\<close> (two \<^verbatim>\<open>ImVec2\<close> and a 32-bit colour) and \<^verbatim>\<open>sizeof(ImDrawIdx)\<close>
  (an \<^verbatim>\<open>unsigned short\<close>, the index type the bridge declares to the engine).\<close>

definition sizeof_ImDrawVert :: nat where
  "sizeof_ImDrawVert = 20"

definition sizeof_ImDrawIdx :: nat where
  "sizeof_ImDrawIdx = 2"

text \<open>Dear ImGui's \<^verbatim>\<open>ImDrawData::ScaleClipRects\<close>, which \<^verbatim>\<open>update\<close> calls on its argument:
  every clip rectangle is multiplied by the scale, \<open>x\<close> and \<open>z\<close> by the horizontal and
  \<open>y\<close> and \<open>w\<close> by the vertical factor.\<close>

definition scale_clip :: "'f platform \<Rightarrow> 'f ImVec2 \<Rightarrow> 'f ImDrawCmd \<Rightarrow> 'f ImDrawCmd" where
  "scale_clip pf fb_scale cmd =
     cmd\<lparr>ClipRect :=
       ImVec4 (fl_mul pf (vec_x (ClipRect cmd)) (vec2_x fb_scale))
              (fl_mul pf (vec_y (ClipRect cmd)) (vec2_y fb_scale))
              (fl_mul pf (vec_z (ClipRect cmd)) (vec2_x fb_scale))
              (fl_mul pf (vec_w (ClipRect cmd)) (vec2_y fb_scale))\<rparr>"

definition ScaleClipRects :: "'f platform \<Rightarrow> 'f ImVec2 \<Rightarrow> 'f ImDrawData \<Rightarrow> 'f ImDrawData" where
  "ScaleClipRects pf fb_scale d =
     d\<lparr>CmdLists :=
       map (\<lambda>l. l\<lparr>CmdBuffer := map (scale_clip pf fb_scale) (CmdBuffer l)\<rparr>) (CmdLists d)\<rparr>"

subsection \<open>The engine's objects and the bridge's state\<close>

text \<open>
  A Filament object is its identity (a number the engine hands out at creation) and
  what the bridge reads back from it: a buffer's capacity, a material instance's
  scissor rectangle. A primitive of a Renderable holds the arguments of the builder's
  \<^verbatim>\<open>geometry\<close>, \<^verbatim>\<open>blendOrder\<close> and \<^verbatim>\<open>material\<close> calls. The engine calls that create,
  destroy or fill a resource, the fence wait and the calls of user callbacks are logged,
  newest first.
\<close>

record VertexBuffer =
  vb_id :: nat
  vertexCount :: nat

record IndexBuffer =
  ib_id :: nat
  indexCount :: nat

record MaterialInstance =
  mi_id :: nat
  scissor :: "(32 word \<times> 32 word \<times> 32 word \<times> 32 word) option"

record Primitive =
  prim_vertices :: nat
  prim_indices :: nat
  prim_offset :: nat
  prim_count :: nat
  prim_blendOrder :: nat
  prim_material :: nat

datatype event =
    Ev_FenceWait
  | Ev_CreateVB nat nat
  | Ev_DestroyVB nat
  | Ev_CreateIB nat nat
  | Ev_DestroyIB nat
  | Ev_CreateMI nat
  | Ev_UploadVB nat nat
  | Ev_UploadIB nat nat
  | Ev_UserCallback

text \<open>
  \<^verbatim>\<open>ImguiFilamentBridge::Impl\<close>. A buffer slot is a pointer, null (\<open>None\<close>) between the
  \<^verbatim>\<open>resize\<close> that adds it and the creation that fills it. \<open>renderable\<close> is the Renderable
  component of the bridge's entity: absent, or the primitive entries of the builder it
  was built from, an entry being \<open>None\<close> while no geometry was set for it. \<open>engine_next\<close>
  and \<open>engine_log\<close> are the engine's side: the next fresh identity and the log.
\<close>

record Impl =
  material :: "nat option"
  vertex_buffers :: "VertexBuffer option list"
  index_buffers :: "IndexBuffer option list"
  material_instances :: "MaterialInstance list"
  renderable :: "Primitive option list option"
  has_synced :: bool
  engine_next :: nat
  engine_log :: "event list"

text \<open>The bridge as the second constructor leaves it, given the material.\<close>

definition new_bridge :: "nat \<Rightarrow> Impl" where
  "new_bridge uiblitMaterial =
     \<lparr>material = Some uiblitMaterial, vertex_buffers = [], index_buffers = [],
      material_instances = [], renderable = None, has_synced = False,
      engine_next = Suc uiblitMaterial, engine_log = []\<rparr>"

text \<open>Dereferencing slot \<open>i\<close> of a vector of pointers: undefined (\<open>None\<close>) outside the
  vector and on a null pointer.\<close>

definition buffer_at :: "'a option list \<Rightarrow> nat \<Rightarrow> 'a option" where
  "buffer_at xs i = (case vec_at xs i of Some (Some b) \<Rightarrow> Some b | _ \<Rightarrow> None)"

subsection \<open>The scissor key\<close>

definition makeScissorKey :: "'f platform \<Rightarrow> int \<Rightarrow> 'f ImVec4 \<Rightarrow> 64 word" where
  "makeScissorKey pf fbheight clipRect =
     (let left = to_uint16 pf (vec_x clipRect);
          bottom = to_uint16 pf (fl_sub pf (fl_of_int pf fbheight) (vec_w clipRect));
          width = to_uint16 pf (fl_sub pf (vec_z clipRect) (vec_x clipRect));
          height = to_uint16 pf (fl_sub pf (vec_w clipRect) (vec_y clipRect))
      in push_bit 0 (ucast left) OR push_bit 16 (ucast bottom) OR
         push_bit 32 (ucast width) OR push_bit 48 (ucast height))"

text \<open>The four \<^verbatim>\<open>uint32_t\<close> that \<^verbatim>\<open>update\<close> reads back from a key for \<^verbatim>\<open>setScissor\<close>.\<close>

definition key_fields :: "64 word \<Rightarrow> 32 word \<times> 32 word \<times> 32 word \<times> 32 word" where
  "key_fields key =
     (ucast (drop_bit 0 key AND 0xffff), ucast (drop_bit 16 key AND 0xffff),
      ucast (drop_bit 32 key AND 0xffff), ucast (drop_bit 48 key AND 0xffff))"

subsection \<open>Buffers\<close>

definition syncThreads :: "'f platform \<Rightarrow> Impl \<Rightarrow> Impl" where
  "syncThreads pf s =
     (if has_threading pf \<and> \<not> has_synced s
      then s\<lparr>has_synced := True, engine_log := Ev_FenceWait # engine_log s\<rparr>
      else s)"

definition createVertexBuffer :: "'f platform \<Rightarrow> nat \<Rightarrow> nat \<Rightarrow> Impl \<Rightarrow> Impl option" where
  "createVertexBuffer pf bufferIndex capacity s =
     (let s1 = syncThreads pf s in
      case vec_at (vertex_buffers s1) bufferIndex of
        None \<Rightarrow> None
      | Some old \<Rightarrow>
          Some (s1\<lparr>vertex_buffers :=
                     (vertex_buffers s1)[bufferIndex :=
                        Some \<lparr>vb_id = engine_next s1, vertexCount = capacity\<rparr>],
                   engine_next := Suc (engine_next s1),
                   engine_log :=
                     Ev_CreateVB (engine_next s1) capacity #
                     (case old of None \<Rightarrow> [] | Some b \<Rightarrow> [Ev_DestroyVB (vb_id b)]) @
                     engine_log s1\<rparr>))"

definition createIndexBuffer :: "'f platform \<Rightarrow> nat \<Rightarrow> nat \<Rightarrow> Impl \<Rightarrow> Impl option" where
  "createIndexBuffer pf bufferIndex capacity s =
     (let s1 = syncThreads pf s in
      case vec_at (index_buffers s1) bufferIndex of
        None \<Rightarrow> None
      | Some old \<Rightarrow>
          Some (s1\<lparr>index_buffers :=
                     (index_buffers s1)[bufferIndex :=
                        Some \<lparr>ib_id = engine_next s1, indexCount = capacity\<rparr>],
                   engine_next := Suc (engine_next s1),
                   engine_log :=
                     Ev_CreateIB (engine_next s1) capacity #
                     (case old of None \<Rightarrow> [] | Some b \<Rightarrow> [Ev_DestroyIB (ib_id b)]) @
                     engine_log s1\<rparr>))"

text \<open>A \<^verbatim>\<open>for\<close> loop whose body may fail: the body runs on each index in turn and the
  first failure ends the loop.\<close>

fun for_each :: "'a list \<Rightarrow> ('a \<Rightarrow> 's \<Rightarrow> 's option) \<Rightarrow> 's \<Rightarrow> 's option" where
  "for_each [] body s = Some s"
| "for_each (x # xs) body s =
     (case body x s of None \<Rightarrow> None | Some s' \<Rightarrow> for_each xs body s')"

definition createBuffers :: "'f platform \<Rightarrow> nat \<Rightarrow> Impl \<Rightarrow> Impl option" where
  "createBuffers pf numRequiredBuffers s =
     (case (if numRequiredBuffers > length (vertex_buffers s)
            then (let previousSize = length (vertex_buffers s);
                      s1 = s\<lparr>vertex_buffers :=
                              vertex_buffers s @ replicate (numRequiredBuffers - previousSize) None\<rparr>
                  in for_each [previousSize ..< length (vertex_buffers s1)]
                       (\<lambda>i. createVertexBuffer pf i 1000) s1)
            else Some s) of
        None \<Rightarrow> None
      | Some s2 \<Rightarrow>
          if numRequiredBuffers > length (index_buffers s2)
          then (let previousSize = length (index_buffers s2);
                    s3 = s2\<lparr>index_buffers :=
                            index_buffers s2 @ replicate (numRequiredBuffers - previousSize) None\<rparr>
                in for_each [previousSize ..< length (index_buffers s3)]
                     (\<lambda>i. createIndexBuffer pf i 5000) s3)
          else Some s2)"

text \<open>The two halves of \<^verbatim>\<open>populateVertexData\<close>: the vertex buffer of the slot is replaced
  by one of the required size when it is too small, and the data are handed to the
  engine in a staging copy; then the same for the index buffer.\<close>

definition populate_vertices :: "'f platform \<Rightarrow> nat \<Rightarrow> nat \<Rightarrow> Impl \<Rightarrow> Impl option" where
  "populate_vertices pf bufferIndex vbSizeInBytes s =
     (let requiredVertCount = vbSizeInBytes div sizeof_ImDrawVert in
      case buffer_at (vertex_buffers s) bufferIndex of
        None \<Rightarrow> None
      | Some vb0 \<Rightarrow>
          (case (if requiredVertCount > vertexCount vb0
                 then createVertexBuffer pf bufferIndex requiredVertCount s
                 else Some s) of
             None \<Rightarrow> None
           | Some s1 \<Rightarrow>
               (let nVbBytes = requiredVertCount * sizeof_ImDrawVert in
                case buffer_at (vertex_buffers s1) bufferIndex of
                  None \<Rightarrow> None
                | Some vb \<Rightarrow>
                    Some (s1\<lparr>engine_log := Ev_UploadVB (vb_id vb) nVbBytes # engine_log s1\<rparr>))))"

definition populate_indices :: "'f platform \<Rightarrow> nat \<Rightarrow> nat \<Rightarrow> Impl \<Rightarrow> Impl option" where
  "populate_indices pf bufferIndex ibSizeInBytes s =
     (let requiredIndexCount = ibSizeInBytes div 2 in
      case buffer_at (index_buffers s) bufferIndex of
        None \<Rightarrow> None
      | Some ib0 \<Rightarrow>
          (case (if requiredIndexCount > indexCount ib0
                 then createIndexBuffer pf bufferIndex requiredIndexCount s
                 else Some s) of
             None \<Rightarrow> None
           | Some s1 \<Rightarrow>
               (let nIbBytes = requiredIndexCount * 2 in
                case buffer_at (index_buffers s1) bufferIndex of
                  None \<Rightarrow> None
                | Some ib \<Rightarrow>
                    Some (s1\<lparr>engine_log := Ev_UploadIB (ib_id ib) nIbBytes # engine_log s1\<rparr>))))"

definition populateVertexData :: "'f platform \<Rightarrow> nat \<Rightarrow> nat \<Rightarrow> nat \<Rightarrow> Impl \<Rightarrow> Impl option" where
  "populateVertexData pf bufferIndex vbSizeInBytes ibSizeInBytes s =
     (case populate_vertices pf bufferIndex vbSizeInBytes s of
        None \<Rightarrow> None
      | Some s' \<Rightarrow> populate_indices pf bufferIndex ibSizeInBytes s')"

text \<open>The capacity of a slot, as \<^verbatim>\<open>getVertexCount\<close> and \<^verbatim>\<open>getIndexCount\<close> report it.\<close>

definition vertex_capacity :: "Impl \<Rightarrow> nat \<Rightarrow> nat" where
  "vertex_capacity s i =
     (case buffer_at (vertex_buffers s) i of Some b \<Rightarrow> vertexCount b | None \<Rightarrow> 0)"

definition index_capacity :: "Impl \<Rightarrow> nat \<Rightarrow> nat" where
  "index_capacity s i =
     (case buffer_at (index_buffers s) i of Some b \<Rightarrow> indexCount b | None \<Rightarrow> 0)"

subsection \<open>The frame\<close>

text \<open>The keys of all draw commands of the frame, in the order the first loop of
  \<^verbatim>\<open>update\<close> inserts them into \<^verbatim>\<open>scissorRects\<close>.\<close>

definition frame_keys :: "'f platform \<Rightarrow> int \<Rightarrow> 'f ImDrawList list \<Rightarrow> 64 word list" where
  "frame_keys pf fbheight cmdLists =
     concat (map (\<lambda>cmds. map (\<lambda>pcmd. makeScissorKey pf fbheight (ClipRect pcmd)) (CmdBuffer cmds))
                 cmdLists)"

text \<open>``Ensure that we have a material instance for each scissor rectangle'': the pool is
  resized to the number of unique keys when that is larger, and the new places are
  filled by \<^verbatim>\<open>material_->createInstance()\<close>, which needs the material.\<close>

fun create_instances :: "nat \<Rightarrow> Impl \<Rightarrow> Impl option" where
  "create_instances 0 s = Some s"
| "create_instances (Suc n) s =
     (case material s of
        None \<Rightarrow> None
      | Some m \<Rightarrow>
          create_instances n
            (s\<lparr>material_instances :=
                 material_instances s @ [\<lparr>mi_id = engine_next s, scissor = None\<rparr>],
               engine_next := Suc (engine_next s),
               engine_log := Ev_CreateMI (engine_next s) # engine_log s\<rparr>))"

definition ensure_material_instances :: "nat \<Rightarrow> Impl \<Rightarrow> Impl option" where
  "ensure_material_instances nUnique s =
     (let previousSize = length (material_instances s) in
      if nUnique > length (material_instances s)
      then create_instances (nUnique - previousSize) s
      else Some s)"

text \<open>``Push each unique scissor rectangle to a MaterialInstance'': the loop over
  \<^verbatim>\<open>scissorRects\<close> with \<^verbatim>\<open>matIndex\<close>; it returns the filled map, key to instance.\<close>

fun push_scissors ::
  "64 word list \<Rightarrow> nat \<Rightarrow> Impl \<Rightarrow> (Impl \<times> (64 word \<times> nat) list) option" where
  "push_scissors [] matIndex s = Some (s, [])"
| "push_scissors (key # keys) matIndex s =
     (case vec_at (material_instances s) matIndex of
        None \<Rightarrow> None
      | Some mi \<Rightarrow>
          (case push_scissors keys (Suc matIndex)
                  (s\<lparr>material_instances :=
                       (material_instances s)[matIndex := mi\<lparr>scissor := Some (key_fields key)\<rparr>]\<rparr>) of
             None \<Rightarrow> None
           | Some (s', rects) \<Rightarrow> Some (s', (key, mi_id mi) # rects)))"

text \<open>
  The loop over the commands of one draw list. It carries the builder's entries,
  \<^verbatim>\<open>primIndex\<close>, \<^verbatim>\<open>indexOffset\<close> and the log. \<^verbatim>\<open>find\<close> on \<^verbatim>\<open>scissorRects\<close> is \<open>map_of\<close>, and the
  \<^verbatim>\<open>assert\<close> that the key is found fails as \<open>None\<close>. The builder ignores an entry index
  outside its entries, as \<open>list_update\<close> does.
\<close>

fun emit_cmds ::
  "'f platform \<Rightarrow> int \<Rightarrow> (64 word \<times> nat) list \<Rightarrow> nat \<Rightarrow> nat \<Rightarrow> 'f ImDrawCmd list \<Rightarrow>
   Primitive option list \<times> nat \<times> nat \<times> event list \<Rightarrow>
   (Primitive option list \<times> nat \<times> nat \<times> event list) option" where
  "emit_cmds pf fbheight scissorRects vb ib [] acc = Some acc"
| "emit_cmds pf fbheight scissorRects vb ib (pcmd # rest) (entries, primIndex, indexOffset, log) =
     (if UserCallback pcmd
      then emit_cmds pf fbheight scissorRects vb ib rest
             (entries, primIndex, indexOffset + ElemCount pcmd, Ev_UserCallback # log)
      else (case map_of scissorRects (makeScissorKey pf fbheight (ClipRect pcmd)) of
              None \<Rightarrow> None
            | Some mi \<Rightarrow>
                emit_cmds pf fbheight scissorRects vb ib rest
                  (entries[primIndex :=
                     Some \<lparr>prim_vertices = vb, prim_indices = ib, prim_offset = indexOffset,
                           prim_count = ElemCount pcmd, prim_blendOrder = primIndex,
                           prim_material = mi\<rparr>],
                   Suc primIndex, indexOffset + ElemCount pcmd, log)))"

text \<open>The loop over the draw lists, with \<^verbatim>\<open>bufferIndex\<close>; it carries the bridge, the
  builder's entries and \<^verbatim>\<open>primIndex\<close>.\<close>

fun emit_lists ::
  "'f platform \<Rightarrow> int \<Rightarrow> (64 word \<times> nat) list \<Rightarrow> 'f ImDrawList list \<Rightarrow> nat \<Rightarrow>
   Impl \<times> Primitive option list \<times> nat \<Rightarrow> (Impl \<times> Primitive option list \<times> nat) option" where
  "emit_lists pf fbheight scissorRects [] bufferIndex acc = Some acc"
| "emit_lists pf fbheight scissorRects (cmds # rest) bufferIndex (s, entries, primIndex) =
     (case populateVertexData pf bufferIndex
             (VtxBuffer_Size cmds * sizeof_ImDrawVert) (IdxBuffer_Size cmds * sizeof_ImDrawIdx) s of
        None \<Rightarrow> None
      | Some s1 \<Rightarrow>
     (case buffer_at (vertex_buffers s1) bufferIndex of
        None \<Rightarrow> None
      | Some vb \<Rightarrow>
     (case buffer_at (index_buffers s1) bufferIndex of
        None \<Rightarrow> None
      | Some ib \<Rightarrow>
     (case emit_cmds pf fbheight scissorRects (vb_id vb) (ib_id ib) (CmdBuffer cmds)
             (entries, primIndex, 0, engine_log s1) of
        None \<Rightarrow> None
      | Some (entries', primIndex', indexOffset, log') \<Rightarrow>
          emit_lists pf fbheight scissorRects rest (Suc bufferIndex)
            (s1\<lparr>engine_log := log'\<rparr>, entries', primIndex')))))"

text \<open>\<^verbatim>\<open>update\<close> after its early return: \<open>cmdLists\<close> are the draw lists with their clip
  rectangles scaled.\<close>

definition render_frame :: "'f platform \<Rightarrow> int \<Rightarrow> 'f ImDrawList list \<Rightarrow> Impl \<Rightarrow> Impl option" where
  "render_frame pf fbheight cmdLists s =
     (case createBuffers pf (length cmdLists) s of
        None \<Rightarrow> None
      | Some s1 \<Rightarrow>
     (let nPrims = sum_list (map (\<lambda>cmds. length (CmdBuffer cmds)) cmdLists);
          keys = frame_keys pf fbheight cmdLists;
          nUnique = length (remdups keys)
      in
      case ensure_material_instances nUnique s1 of
        None \<Rightarrow> None
      | Some s2 \<Rightarrow>
     (case push_scissors (key_order pf keys) 0 s2 of
        None \<Rightarrow> None
      | Some (s3, scissorRects) \<Rightarrow>
     (case emit_lists pf fbheight scissorRects cmdLists 0
             (s3\<lparr>renderable := None\<rparr>, replicate nPrims None, 0) of
        None \<Rightarrow> None
      | Some (s4, entries, primIndex) \<Rightarrow>
          Some (if length cmdLists > 0 then s4\<lparr>renderable := Some entries\<rparr> else s4)))))"

definition fb_size :: "'f platform \<Rightarrow> 'f ImGuiIO \<Rightarrow> int \<times> int" where
  "fb_size pf io =
     (to_int pf (fl_mul pf (vec2_x (DisplaySize io)) (vec2_x (DisplayFramebufferScale io))),
      to_int pf (fl_mul pf (vec2_y (DisplaySize io)) (vec2_y (DisplayFramebufferScale io))))"

definition update :: "'f platform \<Rightarrow> 'f ImGuiIO \<Rightarrow> 'f ImDrawData \<Rightarrow> Impl \<Rightarrow> Impl option" where
  "update pf io imguiData s =
     (let s0 = s\<lparr>has_synced := False\<rparr>;
          (fbwidth, fbheight) = fb_size pf io
      in if fbwidth = 0 \<or> fbheight = 0 then Some s0
         else render_frame pf fbheight
                (CmdLists (ScaleClipRects pf (DisplayFramebufferScale io) imguiData)) s0)"

text \<open>A sequence of \<^verbatim>\<open>update\<close> calls, one per frame.\<close>

fun updates :: "'f platform \<Rightarrow> ('f ImGuiIO \<times> 'f ImDrawData) list \<Rightarrow> Impl \<Rightarrow> Impl option" where
  "updates pf [] s = Some s"
| "updates pf ((io, imguiData) # frames) s =
     (case update pf io imguiData s of None \<Rightarrow> None | Some s' \<Rightarrow> updates pf frames s')"

subsection \<open>Notions used to state the properties of the bridge\<close>

text \<open>The four components of the key, as \<^verbatim>\<open>makeScissorKey\<close> computes them, and the
  expression it returns.\<close>

definition scissor_tuple ::
  "'f platform \<Rightarrow> int \<Rightarrow> 'f ImVec4 \<Rightarrow> 16 word \<times> 16 word \<times> 16 word \<times> 16 word" where
  "scissor_tuple pf fbheight clipRect =
     (to_uint16 pf (vec_x clipRect),
      to_uint16 pf (fl_sub pf (fl_of_int pf fbheight) (vec_w clipRect)),
      to_uint16 pf (fl_sub pf (vec_z clipRect) (vec_x clipRect)),
      to_uint16 pf (fl_sub pf (vec_w clipRect) (vec_y clipRect)))"

fun pack_key :: "16 word \<times> 16 word \<times> 16 word \<times> 16 word \<Rightarrow> 64 word" where
  "pack_key (left, bottom, width, height) =
     (push_bit 0 (ucast left) OR push_bit 16 (ucast bottom) OR
      push_bit 32 (ucast width) OR push_bit 48 (ucast height))"

text \<open>The key in the words of the specification: the same four quantities, each with
  its fraction discarded and then clamped to \<open>0 .. 65535\<close>.\<close>

definition clamp_u16 :: "int \<Rightarrow> 16 word" where
  "clamp_u16 t = word_of_int (max 0 (min 65535 t))"

definition clamped :: "'f platform \<Rightarrow> 'f \<Rightarrow> 16 word" where
  "clamped pf v = (case fl_trunc pf v of Some t \<Rightarrow> clamp_u16 t | None \<Rightarrow> 0)"

definition clamped_key :: "'f platform \<Rightarrow> int \<Rightarrow> 'f ImVec4 \<Rightarrow> 64 word" where
  "clamped_key pf fbheight clipRect =
     pack_key (clamped pf (vec_x clipRect),
               clamped pf (fl_sub pf (fl_of_int pf fbheight) (vec_w clipRect)),
               clamped pf (fl_sub pf (vec_z clipRect) (vec_x clipRect)),
               clamped pf (fl_sub pf (vec_w clipRect) (vec_y clipRect)))"

definition representable_u16 :: "'f platform \<Rightarrow> 'f \<Rightarrow> bool" where
  "representable_u16 pf v = (case fl_trunc pf v of Some t \<Rightarrow> 0 \<le> t \<and> t \<le> 65535 | None \<Rightarrow> False)"

definition rect_in_range :: "'f platform \<Rightarrow> int \<Rightarrow> 'f ImVec4 \<Rightarrow> bool" where
  "rect_in_range pf fbheight clipRect =
     (representable_u16 pf (vec_x clipRect) \<and>
      representable_u16 pf (fl_sub pf (fl_of_int pf fbheight) (vec_w clipRect)) \<and>
      representable_u16 pf (fl_sub pf (vec_z clipRect) (vec_x clipRect)) \<and>
      representable_u16 pf (fl_sub pf (vec_w clipRect) (vec_y clipRect)))"

text \<open>What holds of the bridge between two calls of \<^verbatim>\<open>update\<close>: the material was loaded,
  no buffer slot is null, and the pooled material instances are distinct objects that
  the engine has handed out.\<close>

definition slots_ok :: "Impl \<Rightarrow> bool" where
  "slots_ok s = (None \<notin> set (vertex_buffers s) \<and> None \<notin> set (index_buffers s))"

definition pool_ok :: "Impl \<Rightarrow> bool" where
  "pool_ok s =
     (distinct (map mi_id (material_instances s)) \<and>
      list_all (\<lambda>m. mi_id m < engine_next s) (material_instances s))"

definition bridge_ok :: "Impl \<Rightarrow> bool" where
  "bridge_ok s = (material s \<noteq> None \<and> slots_ok s \<and> pool_ok s)"

text \<open>Counting in the log: fence waits, and creations of a vertex or index buffer.\<close>

fun is_buffer_creation :: "event \<Rightarrow> bool" where
  "is_buffer_creation (Ev_CreateVB i c) = True"
| "is_buffer_creation (Ev_CreateIB i c) = True"
| "is_buffer_creation e = False"

definition fence_waits :: "Impl \<Rightarrow> nat" where
  "fence_waits s = length (filter (\<lambda>e. e = Ev_FenceWait) (engine_log s))"

definition buffer_creations :: "Impl \<Rightarrow> nat" where
  "buffer_creations s = length (filter is_buffer_creation (engine_log s))"

text \<open>\<open>sync_ok pf c0 n0\<close> relates the log and the flag to the log at the start of the
  current call, when it held \<open>c0\<close> buffer creations and \<open>n0\<close> fence waits: the flag is
  set exactly when threading is compiled in and a buffer was created since, and that
  is when one more fence wait is in the log.\<close>

definition sync_ok :: "'f platform \<Rightarrow> nat \<Rightarrow> nat \<Rightarrow> Impl \<Rightarrow> bool" where
  "sync_ok pf c0 n0 s =
     (c0 \<le> buffer_creations s \<and>
      has_synced s = (has_threading pf \<and> c0 < buffer_creations s) \<and>
      fence_waits s = n0 + (if has_synced s then 1 else 0))"

text \<open>What every operation on the buffers leaves alone or only increases.\<close>

definition buf_step :: "'f platform \<Rightarrow> Impl \<Rightarrow> Impl \<Rightarrow> bool" where
  "buf_step pf s s' =
     (material s' = material s \<and> material_instances s' = material_instances s \<and>
      renderable s' = renderable s \<and> engine_next s \<le> engine_next s' \<and>
      (\<forall>c0 n0. sync_ok pf c0 n0 s \<longrightarrow> sync_ok pf c0 n0 s'))"

text \<open>The builder's entries when the first of \<open>n\<close> entries hold the primitives \<open>ps\<close> and
  the others are still empty.\<close>

definition entries_of :: "nat \<Rightarrow> Primitive list \<Rightarrow> Primitive option list" where
  "entries_of n ps = map Some ps @ replicate (n - length ps) None"

text \<open>The primitives that the loop over the commands of one draw list sets, for the first
  free entry \<open>first\<close> and the offset \<open>off\<close> at which it starts.\<close>

fun list_primitives ::
  "'f platform \<Rightarrow> int \<Rightarrow> (64 word \<times> nat) list \<Rightarrow> nat \<Rightarrow> nat \<Rightarrow> nat \<Rightarrow> nat \<Rightarrow>
   'f ImDrawCmd list \<Rightarrow> Primitive list" where
  "list_primitives pf fbheight scissorRects vb ib first off [] = []"
| "list_primitives pf fbheight scissorRects vb ib first off (pcmd # rest) =
     (if UserCallback pcmd
      then list_primitives pf fbheight scissorRects vb ib first (off + ElemCount pcmd) rest
      else \<lparr>prim_vertices = vb, prim_indices = ib, prim_offset = off,
            prim_count = ElemCount pcmd, prim_blendOrder = first,
            prim_material = the (map_of scissorRects (makeScissorKey pf fbheight (ClipRect pcmd)))\<rparr> #
           list_primitives pf fbheight scissorRects vb ib (Suc first) (off + ElemCount pcmd) rest)"

text \<open>The commands of a list that are drawn (those without a user callback).\<close>

definition drawn :: "'f ImDrawCmd list \<Rightarrow> 'f ImDrawCmd list" where
  "drawn cmds = filter (\<lambda>pcmd. \<not> UserCallback pcmd) cmds"

text \<open>\<open>slots_filled b cmdLists s s'\<close>: between \<open>s\<close> and \<open>s'\<close> the slots \<open>b, b+1, ...\<close> were
  filled with the data of \<open>cmdLists\<close>; each of them has as capacity the larger of its old
  capacity and the count required, the other slots hold the buffers they held, and no
  slot was added, removed or made null.\<close>

definition slots_filled :: "nat \<Rightarrow> 'f ImDrawList list \<Rightarrow> Impl \<Rightarrow> Impl \<Rightarrow> bool" where
  "slots_filled b cmdLists s s' =
     (length (vertex_buffers s') = length (vertex_buffers s) \<and>
      length (index_buffers s') = length (index_buffers s) \<and>
      (\<forall>i. (b \<le> i \<and> i < b + length cmdLists \<longrightarrow>
               vertex_capacity s' i =
                 max (vertex_capacity s i) (VtxBuffer_Size (cmdLists ! (i - b))) \<and>
               index_capacity s' i =
                 max (index_capacity s i) (IdxBuffer_Size (cmdLists ! (i - b)))) \<and>
           (\<not> (b \<le> i \<and> i < b + length cmdLists) \<longrightarrow>
               vertex_buffers s' ! i = vertex_buffers s ! i \<and>
               index_buffers s' ! i = index_buffers s ! i) \<and>
           (vertex_buffers s ! i \<noteq> None \<longrightarrow> vertex_buffers s' ! i \<noteq> None) \<and>
           (index_buffers s ! i \<noteq> None \<longrightarrow> index_buffers s' ! i \<noteq> None)))"

text \<open>The entries of the current Renderable (none when it is absent), and those for which
  geometry was set.\<close>

definition primitives :: "Impl \<Rightarrow> Primitive option list" where
  "primitives s = (case renderable s of None \<Rightarrow> [] | Some entries \<Rightarrow> entries)"

definition emitted :: "Impl \<Rightarrow> Primitive list" where
  "emitted s = map the (filter (\<lambda>e. e \<noteq> None) (primitives s))"

text \<open>The frame as \<^verbatim>\<open>update\<close> sees it: whether it is drawn at all, the height it uses for
  the keys, its draw lists with scaled clip rectangles, and the key of a command.\<close>

definition zero_area :: "'f platform \<Rightarrow> 'f ImGuiIO \<Rightarrow> bool" where
  "zero_area pf io = (fst (fb_size pf io) = 0 \<or> snd (fb_size pf io) = 0)"

definition scaled_lists :: "'f platform \<Rightarrow> 'f ImGuiIO \<Rightarrow> 'f ImDrawData \<Rightarrow> 'f ImDrawList list" where
  "scaled_lists pf io imguiData =
     CmdLists (ScaleClipRects pf (DisplayFramebufferScale io) imguiData)"

definition cmd_key :: "'f platform \<Rightarrow> 'f ImGuiIO \<Rightarrow> 'f ImDrawCmd \<Rightarrow> 64 word" where
  "cmd_key pf io pcmd = makeScissorKey pf (snd (fb_size pf io)) (ClipRect pcmd)"

text \<open>In the words of the specification: the index sub-ranges of one draw list, one per
  command without a callback, the offset of a command being the sum of the element
  counts of the commands before it in the same list.\<close>

definition index_ranges :: "'f ImDrawCmd list \<Rightarrow> (nat \<times> nat) list" where
  "index_ranges cmds =
     map (\<lambda>j. (sum_list (map ElemCount (take j cmds)), ElemCount (cmds ! j)))
         (filter (\<lambda>j. \<not> UserCallback (cmds ! j)) [0 ..< length cmds])"

text \<open>The counts a frame requests for slot \<open>i\<close>: none when the frame is skipped or has no
  draw list \<open>i\<close>.\<close>

definition requested_vertices :: "'f platform \<Rightarrow> 'f ImGuiIO \<times> 'f ImDrawData \<Rightarrow> nat \<Rightarrow> nat option" where
  "requested_vertices pf fr i =
     (if \<not> zero_area pf (fst fr) \<and> i < length (CmdLists (snd fr))
      then Some (VtxBuffer_Size (CmdLists (snd fr) ! i) * sizeof_ImDrawVert div sizeof_ImDrawVert)
      else None)"

definition requested_indices :: "'f platform \<Rightarrow> 'f ImGuiIO \<times> 'f ImDrawData \<Rightarrow> nat \<Rightarrow> nat option" where
  "requested_indices pf fr i =
     (if \<not> zero_area pf (fst fr) \<and> i < length (CmdLists (snd fr))
      then Some (IdxBuffer_Size (CmdLists (snd fr) ! i) * sizeof_ImDrawIdx div 2)
      else None)"

text \<open>An example platform, with floats that are whole numbers (so that the float
  operations are exact) and conversions that wrap around outside the destination type,
  as the conversions compiled for x86-64 do; and an example frame of two draw lists,
  the second command of the first list carrying a user callback.\<close>

definition ex_pf :: "int platform" where
  "ex_pf =
     \<lparr>fl_mul = (*), fl_sub = (-), fl_of_int = (\<lambda>i. i), fl_trunc = Some,
      out_of_range_u16 = word_of_int, out_of_range_int = (\<lambda>v. v),
      key_order = remdups, has_threading = True\<rparr>"

definition ex_io :: "int ImGuiIO" where
  "ex_io = \<lparr>DisplaySize = ImVec2 800 600, DisplayFramebufferScale = ImVec2 1 1\<rparr>"

definition ex_io_minimized :: "int ImGuiIO" where
  "ex_io_minimized = \<lparr>DisplaySize = ImVec2 0 0, DisplayFramebufferScale = ImVec2 1 1\<rparr>"

definition ex_data :: "int ImDrawData" where
  "ex_data =
     \<lparr>CmdLists =
        [\<lparr>CmdBuffer =
            [\<lparr>ElemCount = 6, ClipRect = ImVec4 0 0 800 600, UserCallback = False\<rparr>,
             \<lparr>ElemCount = 12, ClipRect = ImVec4 10 10 100 100, UserCallback = True\<rparr>,
             \<lparr>ElemCount = 3, ClipRect = ImVec4 0 0 800 600, UserCallback = False\<rparr>],
          VtxBuffer_Size = 1200, IdxBuffer_Size = 21\<rparr>,
         \<lparr>CmdBuffer =
            [\<lparr>ElemCount = 9, ClipRect = ImVec4 20 20 100 100, UserCallback = False\<rparr>],
          VtxBuffer_Size = 4, IdxBuffer_Size = 9\<rparr>]\<rparr>"

text \<open>All draw commands of a frame, clip rectangles scaled, in drawing order.\<close>

definition frame_cmds :: "'f platform \<Rightarrow> 'f ImGuiIO \<Rightarrow> 'f ImDrawData \<Rightarrow> 'f ImDrawCmd list" where
  "frame_cmds pf io imguiData = concat (map CmdBuffer (scaled_lists pf io imguiData))"

text \<open>\<open>never_less s s'\<close>: from \<open>s\<close> to \<open>s'\<close> no pool lost a place and no capacity went down.\<close>

definition never_less :: "Impl \<Rightarrow> Impl \<Rightarrow> bool" where
  "never_less s s' =
     (length (material_instances s) \<le> length (material_instances s') \<and>
      length (vertex_buffers s) \<le> length (vertex_buffers s') \<and>
      length (index_buffers s) \<le> length (index_buffers s') \<and>
      (\<forall>i. vertex_capacity s i \<le> vertex_capacity s' i) \<and>
      (\<forall>i. index_capacity s i \<le> index_capacity s' i))"

text \<open>The bridge after the example frame.\<close>

definition ex_state :: Impl where
  "ex_state =
     \<lparr>material = Some 0,
      vertex_buffers = [Some \<lparr>vb_id = 8, vertexCount = 1200\<rparr>, Some \<lparr>vb_id = 2, vertexCount = 1000\<rparr>],
      index_buffers = [Some \<lparr>ib_id = 3, indexCount = 5000\<rparr>, Some \<lparr>ib_id = 4, indexCount = 5000\<rparr>],
      material_instances =
        [\<lparr>mi_id = 5, scissor = Some (10, 500, 90, 90)\<rparr>,
         \<lparr>mi_id = 6, scissor = Some (0, 0, 800, 600)\<rparr>,
         \<lparr>mi_id = 7, scissor = Some (20, 500, 80, 80)\<rparr>],
      renderable =
        Some [Some \<lparr>prim_vertices = 8, prim_indices = 3, prim_offset = 0, prim_count = 6,
                    prim_blendOrder = 0, prim_material = 6\<rparr>,
              Some \<lparr>prim_vertices = 8, prim_indices = 3, prim_offset = 18, prim_count = 3,
                    prim_blendOrder = 1, prim_material = 6\<rparr>,
              Some \<lparr>prim_vertices = 2, prim_indices = 4, prim_offset = 0, prim_count = 9,
                    prim_blendOrder = 2, prim_material = 7\<rparr>,
              None],
      has_synced = True, engine_next = 9,
      engine_log =
        [Ev_UploadIB 4 18, Ev_UploadVB 2 80, Ev_UserCallback, Ev_UploadIB 3 42,
         Ev_UploadVB 8 24000, Ev_CreateVB 8 1200, Ev_DestroyVB 1, Ev_CreateMI 7, Ev_CreateMI 6,
         Ev_CreateMI 5, Ev_CreateIB 4 5000, Ev_CreateIB 3 5000, Ev_CreateVB 2 1000,
         Ev_CreateVB 1 1000, Ev_FenceWait]\<rparr>"

text \<open>The clip rectangle that Dear ImGui uses for ``no clipping''.\<close>

definition ex_rect :: "int ImVec4" where
  "ex_rect = ImVec4 (- 8192) (- 8192) 8192 8192"

text \<open>A new bridge after \<^verbatim>\<open>createBuffers(2)\<close>, and that bridge after slot 0 was filled with
  1200 vertices and 21 indices.\<close>

definition ex_buffers :: Impl where
  "ex_buffers =
     \<lparr>material = Some 0,
      vertex_buffers = [Some \<lparr>vb_id = 1, vertexCount = 1000\<rparr>, Some \<lparr>vb_id = 2, vertexCount = 1000\<rparr>],
      index_buffers = [Some \<lparr>ib_id = 3, indexCount = 5000\<rparr>, Some \<lparr>ib_id = 4, indexCount = 5000\<rparr>],
      material_instances = [], renderable = None, has_synced = True, engine_next = 5,
      engine_log =
        [Ev_CreateIB 4 5000, Ev_CreateIB 3 5000, Ev_CreateVB 2 1000, Ev_CreateVB 1 1000,
         Ev_FenceWait]\<rparr>"

definition ex_refilled :: Impl where
  "ex_refilled =
     ex_buffers
       \<lparr>vertex_buffers := [Some \<lparr>vb_id = 5, vertexCount = 1200\<rparr>, Some \<lparr>vb_id = 2, vertexCount = 1000\<rparr>],
        engine_next := 6,
        engine_log :=
          [Ev_UploadIB 3 42, Ev_UploadVB 5 24000, Ev_CreateVB 5 1200, Ev_DestroyVB 1] @
          engine_log ex_buffers\<rparr>"

section \<open>Combobox: properties\<close>

lemma sint_le_uint: "sint (w :: 32 word) \<le> uint w"
proof -
  have "- (2 ^ 31) \<le> uint w"
    by (rule order_trans [of _ 0]) simp_all
  then have "signed_take_bit 31 (uint w) \<le> uint w"
    by (simp only: signed_take_bit_int_less_eq_self_iff)
  then show ?thesis by (simp add: sint_uint)
qed

lemma sint_int_of_size_le: "sint (int_of_size n) \<le> int n"
proof -
  have "uint (word_of_nat n :: 32 word) = int (take_bit 32 n)"
    by (simp add: unsigned_of_nat)
  also have "\<dots> \<le> int n"
    by (simp add: take_bit_nat_less_eq_self)
  finally show ?thesis
    using sint_le_uint [of "int_of_size n"] by (simp add: int_of_size_def)
qed

lemma guard_in_range:
  "0 \<le> sint i \<Longrightarrow> sint i < sint (int_of_size n) \<Longrightarrow> nat (sint i) < n"
  using sint_int_of_size_le [of n] by linarith

lemma select_first_absent:
  "svalue \<notin> set items \<Longrightarrow> select_first svalue items i c = c"
  by (induction items arbitrary: i) auto

lemma select_first_fired: "fired (select_first svalue items i c) = fired c"
  by (induction items arbitrary: i) (auto simp: SetSelectedIndex_def)

text \<open>
  C8. \<open>SetSelectedIndex i\<close> with \<open>i\<close> negative or at least the number of items leaves
  \<open>GetSelectedIndex\<close> as it was; \<open>SetSelectedValue v\<close> with \<open>v\<close> equal to no item leaves
  it as it was; neither setter adds an invocation of the value-changed callback,
  whatever its argument.
\<close>

theorem setters_ignore_bad_input_and_stay_silent:
  "(sint i < 0 \<or> int (length (cb_items c)) \<le> sint i \<longrightarrow>
      GetSelectedIndex (SetSelectedIndex i c) = GetSelectedIndex c) \<and>
   (v \<notin> set (cb_items c) \<longrightarrow>
      GetSelectedIndex (SetSelectedValue v c) = GetSelectedIndex c) \<and>
   fired (SetSelectedIndex j c) = fired c \<and>
   fired (SetSelectedValue w c) = fired c"
proof (intro conjI impI)
  assume out: "sint i < 0 \<or> int (length (cb_items c)) \<le> sint i"
  have "\<not> (0 \<le> sint i \<and> sint i < sint (int_of_size (length (cb_items c))))"
    using out sint_int_of_size_le [of "length (cb_items c)"] by linarith
  then show "GetSelectedIndex (SetSelectedIndex i c) = GetSelectedIndex c"
    by (auto simp: SetSelectedIndex_def)
next
  assume "v \<notin> set (cb_items c)"
  then show "GetSelectedIndex (SetSelectedValue v c) = GetSelectedIndex c"
    by (simp add: SetSelectedValue_def select_first_absent)
next
  show "fired (SetSelectedIndex j c) = fired c"
    by (simp add: SetSelectedIndex_def)
next
  show "fired (SetSelectedValue w c) = fired c"
    by (simp add: SetSelectedValue_def select_first_fired)
qed

text \<open>A click in the drawn combo does invoke the installed callback, once, with the
  clicked item's value and index.\<close>

lemma user_click_fires:
  "fired (fst (Draw False True (\<lambda>i. i = 1)
     \<lparr>cb_items = [''a'', ''b''], current_index = 0, on_value_changed = True, fired = []\<rparr>))
   = [(''b'', 1)]"
  by (simp add: Draw_def numeral_2_eq_2 select_by_user_def GetSelectedValue_def vec_at_def
      int_of_size_def)

theorem setters_ignore_bad_input_and_stay_silent_witness:
  "(int (length [''a'', ''b'']) \<le> sint (5 :: 32 word)) \<and>
   GetSelectedIndex (SetSelectedIndex 5
     \<lparr>cb_items = [''a'', ''b''], current_index = 1, on_value_changed = True, fired = []\<rparr>) = 1 \<and>
   ''z'' \<notin> set [''a'', ''b''] \<and>
   GetSelectedIndex (SetSelectedValue ''z''
     \<lparr>cb_items = [''a'', ''b''], current_index = 1, on_value_changed = True, fired = []\<rparr>) = 1 \<and>
   fired (SetSelectedValue ''b''
     \<lparr>cb_items = [''a'', ''b''], current_index = 0, on_value_changed = True, fired = []\<rparr>) = []"
  using setters_ignore_bad_input_and_stay_silent
    [of 5 "\<lparr>cb_items = [''a'', ''b''], current_index = 1, on_value_changed = True, fired = []\<rparr>"
        "''z''" 0 "''b''"]
    setters_ignore_bad_input_and_stay_silent
    [of 5 "\<lparr>cb_items = [''a'', ''b''], current_index = 0, on_value_changed = True, fired = []\<rparr>"
        "''z''" 0 "''b''"]
  by (simp add: GetSelectedIndex_def)

text \<open>
  C10. \<open>GetSelectedValue\<close> never reads the item vector outside its bounds (the result is
  never the undefined \<open>None\<close>), and whenever the selected index is negative or at least
  the number of items, as on an empty list or after \<open>ClearItems\<close>, it returns the
  empty string.
\<close>

theorem GetSelectedValue_guarded:
  "GetSelectedValue c \<noteq> None \<and>
   (sint (current_index c) < 0 \<or> int (length (cb_items c)) \<le> sint (current_index c) \<longrightarrow>
      GetSelectedValue c = Some [])"
proof (intro conjI impI)
  show "GetSelectedValue c \<noteq> None"
    using guard_in_range [of "current_index c" "length (cb_items c)"]
    by (simp add: GetSelectedValue_def vec_at_def)
next
  assume out: "sint (current_index c) < 0 \<or> int (length (cb_items c)) \<le> sint (current_index c)"
  have "\<not> (0 \<le> sint (current_index c) \<and>
            sint (current_index c) < sint (int_of_size (length (cb_items c))))"
    using out sint_int_of_size_le [of "length (cb_items c)"] by linarith
  then show "GetSelectedValue c = Some []"
    by (auto simp: GetSelectedValue_def)
qed

theorem GetSelectedValue_guarded_witness:
  "int (length (cb_items (ClearItems
      \<lparr>cb_items = [''a'', ''b''], current_index = 1, on_value_changed = False, fired = []\<rparr>)))
     \<le> sint (current_index (ClearItems
      \<lparr>cb_items = [''a'', ''b''], current_index = 1, on_value_changed = False, fired = []\<rparr>)) \<and>
   GetSelectedValue (ClearItems
      \<lparr>cb_items = [''a'', ''b''], current_index = 1, on_value_changed = False, fired = []\<rparr>)
     = Some [] \<and>
   GetSelectedValue
      \<lparr>cb_items = [''a'', ''b''], current_index = 1, on_value_changed = False, fired = []\<rparr>
     = Some ''b''"
  using GetSelectedValue_guarded
    [of "ClearItems
      \<lparr>cb_items = [''a'', ''b''], current_index = 1, on_value_changed = False, fired = []\<rparr>"]
  by (simp add: ClearItems_def GetSelectedValue_def vec_at_def int_of_size_def)

section \<open>Menu: properties\<close>

subsection \<open>The building operations keep the tables right\<close>







subsection \<open>The recursive search\<close>






lemma length_write_at: "length (menu_items (write_at f p m)) = length (menu_items m)"
  by (induction f p m rule: write_at.induct) (auto split: option.splits)





subsection \<open>The setters\<close>










section \<open>The bridge: how each operation changes the state\<close>

subsection \<open>Creating buffers\<close>

lemma buf_step_refl: "buf_step pf s s"
  by (simp add: buf_step_def)

lemma buf_step_trans: "buf_step pf s s1 \<Longrightarrow> buf_step pf s1 s2 \<Longrightarrow> buf_step pf s s2"
  by (simp add: buf_step_def)

lemma createVertexBuffer_Some:
  assumes "createVertexBuffer pf i cap s = Some s'"
  shows "i < length (vertex_buffers s)"
    and "vertex_buffers s' = (vertex_buffers s)[i := Some \<lparr>vb_id = engine_next s, vertexCount = cap\<rparr>]"
    and "index_buffers s' = index_buffers s"
    and "material s' = material s"
    and "material_instances s' = material_instances s"
    and "renderable s' = renderable s"
    and "engine_next s' = Suc (engine_next s)"
    and "has_synced s' = (has_synced s \<or> has_threading pf)"
    and "fence_waits s' = fence_waits s + (if has_threading pf \<and> \<not> has_synced s then 1 else 0)"
    and "buffer_creations s' = Suc (buffer_creations s)"
  using assms
  by (auto simp: createVertexBuffer_def syncThreads_def vec_at_def fence_waits_def
      buffer_creations_def Let_def split: if_splits option.splits)

lemma createIndexBuffer_Some:
  assumes "createIndexBuffer pf i cap s = Some s'"
  shows "i < length (index_buffers s)"
    and "index_buffers s' = (index_buffers s)[i := Some \<lparr>ib_id = engine_next s, indexCount = cap\<rparr>]"
    and "vertex_buffers s' = vertex_buffers s"
    and "material s' = material s"
    and "material_instances s' = material_instances s"
    and "renderable s' = renderable s"
    and "engine_next s' = Suc (engine_next s)"
    and "has_synced s' = (has_synced s \<or> has_threading pf)"
    and "fence_waits s' = fence_waits s + (if has_threading pf \<and> \<not> has_synced s then 1 else 0)"
    and "buffer_creations s' = Suc (buffer_creations s)"
  using assms
  by (auto simp: createIndexBuffer_def syncThreads_def vec_at_def fence_waits_def
      buffer_creations_def Let_def split: if_splits option.splits)

lemma createVertexBuffer_succeeds:
  "i < length (vertex_buffers s) \<Longrightarrow> \<exists>s'. createVertexBuffer pf i cap s = Some s'"
  by (simp add: createVertexBuffer_def syncThreads_def vec_at_def Let_def)

lemma createIndexBuffer_succeeds:
  "i < length (index_buffers s) \<Longrightarrow> \<exists>s'. createIndexBuffer pf i cap s = Some s'"
  by (simp add: createIndexBuffer_def syncThreads_def vec_at_def Let_def)

lemma sync_ok_create:
  assumes "sync_ok pf c0 n0 s"
    and "has_synced s' = (has_synced s \<or> has_threading pf)"
    and "fence_waits s' = fence_waits s + (if has_threading pf \<and> \<not> has_synced s then 1 else 0)"
    and "buffer_creations s' = Suc (buffer_creations s)"
  shows "sync_ok pf c0 n0 s'"
  using assms by (auto simp: sync_ok_def)

lemma buf_step_createVertexBuffer:
  "createVertexBuffer pf i cap s = Some s' \<Longrightarrow> buf_step pf s s'"
  unfolding buf_step_def
  by (intro conjI allI impI)
     (simp_all add: createVertexBuffer_Some(4-7),
      erule sync_ok_create, simp_all add: createVertexBuffer_Some(8-10))

lemma buf_step_createIndexBuffer:
  "createIndexBuffer pf i cap s = Some s' \<Longrightarrow> buf_step pf s s'"
  unfolding buf_step_def
  by (intro conjI allI impI)
     (simp_all add: createIndexBuffer_Some(4-7),
      erule sync_ok_create, simp_all add: createIndexBuffer_Some(8-10))

lemma create_vertex_loop:
  "length (vertex_buffers s) = n \<Longrightarrow> a \<le> n \<Longrightarrow>
   \<exists>s'. for_each [a ..< n] (\<lambda>i. createVertexBuffer pf i 1000) s = Some s' \<and>
        buf_step pf s s' \<and> index_buffers s' = index_buffers s \<and>
        length (vertex_buffers s') = n \<and>
        take a (vertex_buffers s') = take a (vertex_buffers s) \<and>
        (\<forall>j. a \<le> j \<and> j < n \<longrightarrow> (\<exists>b. vertex_buffers s' ! j = Some b \<and> vertexCount b = 1000)) \<and>
        buffer_creations s' = buffer_creations s + (n - a)"
proof (induction "n - a" arbitrary: a s)
  case 0
  then show ?case by (auto simp: buf_step_refl)
next
  case (Suc k)
  then have lt: "a < n" by simp
  with Suc.prems obtain s1 where s1: "createVertexBuffer pf a 1000 s = Some s1"
    using createVertexBuffer_succeeds [of a s pf 1000] by auto
  note f = createVertexBuffer_Some [OF s1]
  have len1: "length (vertex_buffers s1) = n" using f(2) Suc.prems by simp
  from Suc.hyps(2) lt have k: "k = n - Suc a" by simp
  from Suc.hyps(1) [OF k len1] lt obtain s' where
    s': "for_each [Suc a ..< n] (\<lambda>i. createVertexBuffer pf i 1000) s1 = Some s'"
      "buf_step pf s1 s'" "index_buffers s' = index_buffers s1"
      "length (vertex_buffers s') = n"
      "take (Suc a) (vertex_buffers s') = take (Suc a) (vertex_buffers s1)"
      "\<forall>j. Suc a \<le> j \<and> j < n \<longrightarrow> (\<exists>b. vertex_buffers s' ! j = Some b \<and> vertexCount b = 1000)"
      "buffer_creations s' = buffer_creations s1 + (n - Suc a)"
    by auto
  have run: "for_each [a ..< n] (\<lambda>i. createVertexBuffer pf i 1000) s = Some s'"
    using lt s1 s'(1) by (simp add: upt_conv_Cons)
  have "take a (take (Suc a) (vertex_buffers s')) = take a (take (Suc a) (vertex_buffers s1))"
    using s'(5) by simp
  then have tk: "take a (vertex_buffers s') = take a (vertex_buffers s)"
    using f(2) by (simp add: min_def)
  have "vertex_buffers s' ! a = take (Suc a) (vertex_buffers s') ! a" by simp
  also have "\<dots> = vertex_buffers s1 ! a" using s'(5) by simp
  also have "\<dots> = Some \<lparr>vb_id = engine_next s, vertexCount = 1000\<rparr>"
    using f(1,2) by simp
  finally have at_a: "\<exists>b. vertex_buffers s' ! a = Some b \<and> vertexCount b = 1000" by simp
  have all: "\<forall>j. a \<le> j \<and> j < n \<longrightarrow> (\<exists>b. vertex_buffers s' ! j = Some b \<and> vertexCount b = 1000)"
  proof (intro allI impI)
    fix j assume j: "a \<le> j \<and> j < n"
    show "\<exists>b. vertex_buffers s' ! j = Some b \<and> vertexCount b = 1000"
    proof (cases "j = a")
      case True
      with at_a show ?thesis by simp
    next
      case False
      with j s'(6) show ?thesis by simp
    qed
  qed
  have "buf_step pf s s'"
    using buf_step_createVertexBuffer [OF s1] s'(2) by (rule buf_step_trans)
  moreover have "buffer_creations s' = buffer_creations s + (n - a)"
    using s'(7) f(10) lt by simp
  ultimately show ?case
    using run s'(3,4) f(3) tk all by simp
qed

lemma create_index_loop:
  "length (index_buffers s) = n \<Longrightarrow> a \<le> n \<Longrightarrow>
   \<exists>s'. for_each [a ..< n] (\<lambda>i. createIndexBuffer pf i 5000) s = Some s' \<and>
        buf_step pf s s' \<and> vertex_buffers s' = vertex_buffers s \<and>
        length (index_buffers s') = n \<and>
        take a (index_buffers s') = take a (index_buffers s) \<and>
        (\<forall>j. a \<le> j \<and> j < n \<longrightarrow> (\<exists>b. index_buffers s' ! j = Some b \<and> indexCount b = 5000)) \<and>
        buffer_creations s' = buffer_creations s + (n - a)"
proof (induction "n - a" arbitrary: a s)
  case 0
  then show ?case by (auto simp: buf_step_refl)
next
  case (Suc k)
  then have lt: "a < n" by simp
  with Suc.prems obtain s1 where s1: "createIndexBuffer pf a 5000 s = Some s1"
    using createIndexBuffer_succeeds [of a s pf 5000] by auto
  note f = createIndexBuffer_Some [OF s1]
  have len1: "length (index_buffers s1) = n" using f(2) Suc.prems by simp
  from Suc.hyps(2) lt have k: "k = n - Suc a" by simp
  from Suc.hyps(1) [OF k len1] lt obtain s' where
    s': "for_each [Suc a ..< n] (\<lambda>i. createIndexBuffer pf i 5000) s1 = Some s'"
      "buf_step pf s1 s'" "vertex_buffers s' = vertex_buffers s1"
      "length (index_buffers s') = n"
      "take (Suc a) (index_buffers s') = take (Suc a) (index_buffers s1)"
      "\<forall>j. Suc a \<le> j \<and> j < n \<longrightarrow> (\<exists>b. index_buffers s' ! j = Some b \<and> indexCount b = 5000)"
      "buffer_creations s' = buffer_creations s1 + (n - Suc a)"
    by auto
  have run: "for_each [a ..< n] (\<lambda>i. createIndexBuffer pf i 5000) s = Some s'"
    using lt s1 s'(1) by (simp add: upt_conv_Cons)
  have "take a (take (Suc a) (index_buffers s')) = take a (take (Suc a) (index_buffers s1))"
    using s'(5) by simp
  then have tk: "take a (index_buffers s') = take a (index_buffers s)"
    using f(2) by (simp add: min_def)
  have "index_buffers s' ! a = take (Suc a) (index_buffers s') ! a" by simp
  also have "\<dots> = index_buffers s1 ! a" using s'(5) by simp
  also have "\<dots> = Some \<lparr>ib_id = engine_next s, indexCount = 5000\<rparr>"
    using f(1,2) by simp
  finally have at_a: "\<exists>b. index_buffers s' ! a = Some b \<and> indexCount b = 5000" by simp
  have all: "\<forall>j. a \<le> j \<and> j < n \<longrightarrow> (\<exists>b. index_buffers s' ! j = Some b \<and> indexCount b = 5000)"
  proof (intro allI impI)
    fix j assume j: "a \<le> j \<and> j < n"
    show "\<exists>b. index_buffers s' ! j = Some b \<and> indexCount b = 5000"
    proof (cases "j = a")
      case True
      with at_a show ?thesis by simp
    next
      case False
      with j s'(6) show ?thesis by simp
    qed
  qed
  have "buf_step pf s s'"
    using buf_step_createIndexBuffer [OF s1] s'(2) by (rule buf_step_trans)
  moreover have "buffer_creations s' = buffer_creations s + (n - a)"
    using s'(7) f(10) lt by simp
  ultimately show ?case
    using run s'(3,4) f(3) tk all by simp
qed

lemma all_created_append:
  assumes "length xs' = n" and "length xs \<le> n" and "take (length xs) xs' = xs"
  shows "xs' = xs @ drop (length xs) xs'"
  using assms by (metis append_take_drop_id)

text \<open>\<^verbatim>\<open>createBuffers\<close> always returns; the vertex and the index vector each keep their
  slots and receive the missing ones, created with 1000 vertices and 5000 indices.\<close>

lemma createBuffers_spec:
  "\<exists>s'. createBuffers pf n s = Some s' \<and> buf_step pf s s' \<and>
     length (vertex_buffers s') = max n (length (vertex_buffers s)) \<and>
     take (length (vertex_buffers s)) (vertex_buffers s') = vertex_buffers s \<and>
     (\<forall>j. length (vertex_buffers s) \<le> j \<and> j < n \<longrightarrow>
        (\<exists>b. vertex_buffers s' ! j = Some b \<and> vertexCount b = 1000)) \<and>
     length (index_buffers s') = max n (length (index_buffers s)) \<and>
     take (length (index_buffers s)) (index_buffers s') = index_buffers s \<and>
     (\<forall>j. length (index_buffers s) \<le> j \<and> j < n \<longrightarrow>
        (\<exists>b. index_buffers s' ! j = Some b \<and> indexCount b = 5000)) \<and>
     buffer_creations s' =
       buffer_creations s + (n - length (vertex_buffers s)) + (n - length (index_buffers s))"
proof -
  define v where "v = length (vertex_buffers s)"
  define sv where "sv = s\<lparr>vertex_buffers := vertex_buffers s @ replicate (n - v) None\<rparr>"
  define first where "first =
    (if n > v then for_each [v ..< length (vertex_buffers sv)] (\<lambda>i. createVertexBuffer pf i 1000) sv
     else Some s)"
  have "\<exists>s2. first = Some s2 \<and> buf_step pf s s2 \<and> index_buffers s2 = index_buffers s \<and>
      length (vertex_buffers s2) = max n v \<and>
      take v (vertex_buffers s2) = vertex_buffers s \<and>
      (\<forall>j. v \<le> j \<and> j < n \<longrightarrow> (\<exists>b. vertex_buffers s2 ! j = Some b \<and> vertexCount b = 1000)) \<and>
      buffer_creations s2 = buffer_creations s + (n - v)"
  proof (cases "n > v")
    case False
    then show ?thesis by (auto simp: first_def buf_step_refl v_def)
  next
    case True
    have len: "length (vertex_buffers sv) = n" using True by (simp add: sv_def v_def)
    from create_vertex_loop [OF len, of v pf] True obtain s2 where
      s2: "for_each [v ..< n] (\<lambda>i. createVertexBuffer pf i 1000) sv = Some s2"
        "buf_step pf sv s2" "index_buffers s2 = index_buffers sv"
        "length (vertex_buffers s2) = n"
        "take v (vertex_buffers s2) = take v (vertex_buffers sv)"
        "\<forall>j. v \<le> j \<and> j < n \<longrightarrow> (\<exists>b. vertex_buffers s2 ! j = Some b \<and> vertexCount b = 1000)"
        "buffer_creations s2 = buffer_creations sv + (n - v)"
      by auto
    have "buf_step pf s sv"
      by (simp add: buf_step_def sv_def sync_ok_def fence_waits_def buffer_creations_def)
    then have "buf_step pf s s2" using s2(2) by (rule buf_step_trans)
    moreover have "take v (vertex_buffers sv) = vertex_buffers s" by (simp add: sv_def v_def)
    moreover have "buffer_creations sv = buffer_creations s"
      by (simp add: sv_def buffer_creations_def)
    moreover have "index_buffers sv = index_buffers s" by (simp add: sv_def)
    ultimately show ?thesis
      using True s2 len by (simp add: first_def)
  qed
  then obtain s2 where
    s2: "first = Some s2" "buf_step pf s s2" "index_buffers s2 = index_buffers s"
      "length (vertex_buffers s2) = max n v"
      "take v (vertex_buffers s2) = vertex_buffers s"
      "\<forall>j. v \<le> j \<and> j < n \<longrightarrow> (\<exists>b. vertex_buffers s2 ! j = Some b \<and> vertexCount b = 1000)"
      "buffer_creations s2 = buffer_creations s + (n - v)"
    by auto
  define w where "w = length (index_buffers s2)"
  define si where "si = s2\<lparr>index_buffers := index_buffers s2 @ replicate (n - w) None\<rparr>"
  define second where "second =
    (if n > w then for_each [w ..< length (index_buffers si)] (\<lambda>i. createIndexBuffer pf i 5000) si
     else Some s2)"
  have "\<exists>s3. second = Some s3 \<and> buf_step pf s2 s3 \<and> vertex_buffers s3 = vertex_buffers s2 \<and>
      length (index_buffers s3) = max n w \<and>
      take w (index_buffers s3) = index_buffers s2 \<and>
      (\<forall>j. w \<le> j \<and> j < n \<longrightarrow> (\<exists>b. index_buffers s3 ! j = Some b \<and> indexCount b = 5000)) \<and>
      buffer_creations s3 = buffer_creations s2 + (n - w)"
  proof (cases "n > w")
    case False
    then show ?thesis by (auto simp: second_def buf_step_refl w_def)
  next
    case True
    have len: "length (index_buffers si) = n" using True by (simp add: si_def w_def)
    from create_index_loop [OF len, of w pf] True obtain s3 where
      s3: "for_each [w ..< n] (\<lambda>i. createIndexBuffer pf i 5000) si = Some s3"
        "buf_step pf si s3" "vertex_buffers s3 = vertex_buffers si"
        "length (index_buffers s3) = n"
        "take w (index_buffers s3) = take w (index_buffers si)"
        "\<forall>j. w \<le> j \<and> j < n \<longrightarrow> (\<exists>b. index_buffers s3 ! j = Some b \<and> indexCount b = 5000)"
        "buffer_creations s3 = buffer_creations si + (n - w)"
      by auto
    have "buf_step pf s2 si"
      by (simp add: buf_step_def si_def sync_ok_def fence_waits_def buffer_creations_def)
    then have "buf_step pf s2 s3" using s3(2) by (rule buf_step_trans)
    moreover have "take w (index_buffers si) = index_buffers s2" by (simp add: si_def w_def)
    moreover have "buffer_creations si = buffer_creations s2"
      by (simp add: si_def buffer_creations_def)
    moreover have "vertex_buffers si = vertex_buffers s2" by (simp add: si_def)
    ultimately show ?thesis
      using True s3 len by (simp add: second_def)
  qed
  then obtain s3 where
    s3: "second = Some s3" "buf_step pf s2 s3" "vertex_buffers s3 = vertex_buffers s2"
      "length (index_buffers s3) = max n w"
      "take w (index_buffers s3) = index_buffers s2"
      "\<forall>j. w \<le> j \<and> j < n \<longrightarrow> (\<exists>b. index_buffers s3 ! j = Some b \<and> indexCount b = 5000)"
      "buffer_creations s3 = buffer_creations s2 + (n - w)"
    by auto
  have "createBuffers pf n s = Some s3"
    using s2(1) s3(1)
    unfolding createBuffers_def first_def second_def sv_def si_def v_def w_def Let_def
    by (simp only: option.case)
  moreover have "buf_step pf s s3" using s2(2) s3(2) by (rule buf_step_trans)
  moreover have "w = length (index_buffers s)" using s2(3) by (simp add: w_def)
  ultimately show ?thesis
    using s2 s3 by (simp add: v_def)
qed

subsection \<open>Filling a slot\<close>

lemma buffer_at_Some:
  "buffer_at xs i = Some b \<longleftrightarrow> i < length xs \<and> xs ! i = Some b"
  by (auto simp: buffer_at_def vec_at_def split: option.splits)

lemma buffer_at_update:
  "i < length xs \<Longrightarrow> buffer_at (xs[i := Some b]) i = Some b"
  by (simp add: buffer_at_Some)

lemma vertices_div: "n * sizeof_ImDrawVert div sizeof_ImDrawVert = n"
  by (simp add: sizeof_ImDrawVert_def)

lemma indices_div: "n * sizeof_ImDrawIdx div 2 = n"
  by (simp add: sizeof_ImDrawIdx_def)

lemma buf_step_log:
  "\<not> is_buffer_creation e \<Longrightarrow> e \<noteq> Ev_FenceWait \<Longrightarrow>
   buf_step pf s (s\<lparr>engine_log := e # engine_log s\<rparr>)"
  by (simp add: buf_step_def sync_ok_def fence_waits_def buffer_creations_def)

text \<open>The vertex half of \<^verbatim>\<open>populateVertexData\<close> on a slot that holds a buffer: it returns,
  only this slot can change, and its capacity becomes the larger of the old capacity
  and the required count.\<close>

lemma populate_vertices_spec:
  assumes "buffer_at (vertex_buffers s) i = Some vb0"
  shows "\<exists>s'. populate_vertices pf i bytes s = Some s' \<and> buf_step pf s s' \<and>
     index_buffers s' = index_buffers s \<and>
     length (vertex_buffers s') = length (vertex_buffers s) \<and>
     (\<forall>j. j \<noteq> i \<longrightarrow> vertex_buffers s' ! j = vertex_buffers s ! j) \<and>
     (\<exists>vb. vertex_buffers s' ! i = Some vb \<and>
        vertexCount vb = max (vertexCount vb0) (bytes div sizeof_ImDrawVert) \<and>
        (bytes div sizeof_ImDrawVert \<le> vertexCount vb0 \<longrightarrow> vb = vb0)) \<and>
     buffer_creations s' =
       buffer_creations s + (if bytes div sizeof_ImDrawVert > vertexCount vb0 then 1 else 0)"
proof -
  define r where "r = bytes div sizeof_ImDrawVert"
  from assms have i: "i < length (vertex_buffers s)" "vertex_buffers s ! i = Some vb0"
    by (simp_all add: buffer_at_Some)
  show ?thesis
  proof (cases "r > vertexCount vb0")
    case True
    from createVertexBuffer_succeeds [OF i(1), of pf r] obtain s1 where
      s1: "createVertexBuffer pf i r s = Some s1" by auto
    note f = createVertexBuffer_Some [OF s1]
    define vb where "vb = \<lparr>vb_id = engine_next s, vertexCount = r\<rparr>"
    have at: "buffer_at (vertex_buffers s1) i = Some vb"
      using f(2) i(1) by (simp add: buffer_at_update vb_def)
    define s' where "s' = s1\<lparr>engine_log := Ev_UploadVB (vb_id vb) (r * sizeof_ImDrawVert) # engine_log s1\<rparr>"
    have run: "populate_vertices pf i bytes s = Some s'"
      using assms True s1 at by (simp add: populate_vertices_def Let_def r_def [symmetric] s'_def)
    have "buf_step pf s1 s'" unfolding s'_def by (rule buf_step_log) simp_all
    with buf_step_createVertexBuffer [OF s1] have "buf_step pf s s'" by (blast intro: buf_step_trans)
    moreover have "buffer_creations s' = Suc (buffer_creations s)"
      using f(10) by (simp add: s'_def buffer_creations_def)
    moreover have "vertex_buffers s' = (vertex_buffers s)[i := Some vb]"
      using f(2) by (simp add: s'_def vb_def)
    moreover have "index_buffers s' = index_buffers s" using f(3) by (simp add: s'_def)
    ultimately show ?thesis
      using run True i(1) by (simp add: r_def [symmetric] vb_def max_def)
  next
    case False
    define s' where "s' = s\<lparr>engine_log := Ev_UploadVB (vb_id vb0) (r * sizeof_ImDrawVert) # engine_log s\<rparr>"
    have run: "populate_vertices pf i bytes s = Some s'"
      using assms False by (simp add: populate_vertices_def Let_def r_def [symmetric] s'_def)
    have "buf_step pf s s'" unfolding s'_def by (rule buf_step_log) simp_all
    moreover have "buffer_creations s' = buffer_creations s"
      by (simp add: s'_def buffer_creations_def)
    ultimately show ?thesis
      using run False i by (simp add: r_def [symmetric] s'_def max_def)
  qed
qed

lemma populate_indices_spec:
  assumes "buffer_at (index_buffers s) i = Some ib0"
  shows "\<exists>s'. populate_indices pf i bytes s = Some s' \<and> buf_step pf s s' \<and>
     vertex_buffers s' = vertex_buffers s \<and>
     length (index_buffers s') = length (index_buffers s) \<and>
     (\<forall>j. j \<noteq> i \<longrightarrow> index_buffers s' ! j = index_buffers s ! j) \<and>
     (\<exists>ib. index_buffers s' ! i = Some ib \<and>
        indexCount ib = max (indexCount ib0) (bytes div 2) \<and>
        (bytes div 2 \<le> indexCount ib0 \<longrightarrow> ib = ib0)) \<and>
     buffer_creations s' =
       buffer_creations s + (if bytes div 2 > indexCount ib0 then 1 else 0)"
proof -
  define r where "r = bytes div 2"
  from assms have i: "i < length (index_buffers s)" "index_buffers s ! i = Some ib0"
    by (simp_all add: buffer_at_Some)
  show ?thesis
  proof (cases "r > indexCount ib0")
    case True
    from createIndexBuffer_succeeds [OF i(1), of pf r] obtain s1 where
      s1: "createIndexBuffer pf i r s = Some s1" by auto
    note f = createIndexBuffer_Some [OF s1]
    define ib where "ib = \<lparr>ib_id = engine_next s, indexCount = r\<rparr>"
    have at: "buffer_at (index_buffers s1) i = Some ib"
      using f(2) i(1) by (simp add: buffer_at_update ib_def)
    define s' where "s' = s1\<lparr>engine_log := Ev_UploadIB (ib_id ib) (r * 2) # engine_log s1\<rparr>"
    have run: "populate_indices pf i bytes s = Some s'"
      using assms True s1 at by (simp add: populate_indices_def Let_def r_def [symmetric] s'_def)
    have "buf_step pf s1 s'" unfolding s'_def by (rule buf_step_log) simp_all
    with buf_step_createIndexBuffer [OF s1] have "buf_step pf s s'" by (blast intro: buf_step_trans)
    moreover have "buffer_creations s' = Suc (buffer_creations s)"
      using f(10) by (simp add: s'_def buffer_creations_def)
    moreover have "index_buffers s' = (index_buffers s)[i := Some ib]"
      using f(2) by (simp add: s'_def ib_def)
    moreover have "vertex_buffers s' = vertex_buffers s" using f(3) by (simp add: s'_def)
    ultimately show ?thesis
      using run True i(1) by (simp add: r_def [symmetric] ib_def max_def)
  next
    case False
    define s' where "s' = s\<lparr>engine_log := Ev_UploadIB (ib_id ib0) (r * 2) # engine_log s\<rparr>"
    have run: "populate_indices pf i bytes s = Some s'"
      using assms False by (simp add: populate_indices_def Let_def r_def [symmetric] s'_def)
    have "buf_step pf s s'" unfolding s'_def by (rule buf_step_log) simp_all
    moreover have "buffer_creations s' = buffer_creations s"
      by (simp add: s'_def buffer_creations_def)
    ultimately show ?thesis
      using run False i by (simp add: r_def [symmetric] s'_def max_def)
  qed
qed

lemma populateVertexData_spec:
  assumes "buffer_at (vertex_buffers s) i = Some vb0"
    and "buffer_at (index_buffers s) i = Some ib0"
  shows "\<exists>s' vb ib. populateVertexData pf i vbytes ibytes s = Some s' \<and> buf_step pf s s' \<and>
     length (vertex_buffers s') = length (vertex_buffers s) \<and>
     length (index_buffers s') = length (index_buffers s) \<and>
     (\<forall>j. j \<noteq> i \<longrightarrow> vertex_buffers s' ! j = vertex_buffers s ! j \<and>
                    index_buffers s' ! j = index_buffers s ! j) \<and>
     vertex_buffers s' ! i = Some vb \<and> index_buffers s' ! i = Some ib \<and>
     vertexCount vb = max (vertexCount vb0) (vbytes div sizeof_ImDrawVert) \<and>
     (vbytes div sizeof_ImDrawVert \<le> vertexCount vb0 \<longrightarrow> vb = vb0) \<and>
     indexCount ib = max (indexCount ib0) (ibytes div 2) \<and>
     (ibytes div 2 \<le> indexCount ib0 \<longrightarrow> ib = ib0) \<and>
     buffer_creations s' =
       buffer_creations s + (if vbytes div sizeof_ImDrawVert > vertexCount vb0 then 1 else 0)
         + (if ibytes div 2 > indexCount ib0 then 1 else 0)"
proof -
  from populate_vertices_spec [OF assms(1), of pf vbytes] obtain s1 vb where
    s1: "populate_vertices pf i vbytes s = Some s1" "buf_step pf s s1"
      "index_buffers s1 = index_buffers s"
      "length (vertex_buffers s1) = length (vertex_buffers s)"
      "\<forall>j. j \<noteq> i \<longrightarrow> vertex_buffers s1 ! j = vertex_buffers s ! j"
      "vertex_buffers s1 ! i = Some vb"
      "vertexCount vb = max (vertexCount vb0) (vbytes div sizeof_ImDrawVert)"
      "vbytes div sizeof_ImDrawVert \<le> vertexCount vb0 \<longrightarrow> vb = vb0"
      "buffer_creations s1 =
         buffer_creations s + (if vbytes div sizeof_ImDrawVert > vertexCount vb0 then 1 else 0)"
    by auto
  from assms(2) s1(3) have "buffer_at (index_buffers s1) i = Some ib0" by simp
  from populate_indices_spec [OF this, of pf ibytes] obtain s2 ib where
    s2: "populate_indices pf i ibytes s1 = Some s2" "buf_step pf s1 s2"
      "vertex_buffers s2 = vertex_buffers s1"
      "length (index_buffers s2) = length (index_buffers s1)"
      "\<forall>j. j \<noteq> i \<longrightarrow> index_buffers s2 ! j = index_buffers s1 ! j"
      "index_buffers s2 ! i = Some ib"
      "indexCount ib = max (indexCount ib0) (ibytes div 2)"
      "ibytes div 2 \<le> indexCount ib0 \<longrightarrow> ib = ib0"
      "buffer_creations s2 =
         buffer_creations s1 + (if ibytes div 2 > indexCount ib0 then 1 else 0)"
    by auto
  have "populateVertexData pf i vbytes ibytes s = Some s2"
    using s1(1) s2(1) by (simp add: populateVertexData_def)
  moreover have "buf_step pf s s2" using s1(2) s2(2) by (rule buf_step_trans)
  ultimately show ?thesis
    using s1 s2 by (intro exI [of _ s2] exI [of _ vb] exI [of _ ib]) simp
qed

subsection \<open>Material instances\<close>

lemma create_instances_spec:
  assumes "n = 0 \<or> material s \<noteq> None"
  shows "create_instances n s =
     Some (s\<lparr>material_instances :=
               material_instances s @
               map (\<lambda>k. \<lparr>mi_id = engine_next s + k, scissor = None\<rparr>) [0 ..< n],
             engine_next := engine_next s + n,
             engine_log := map (\<lambda>k. Ev_CreateMI (engine_next s + k)) (rev [0 ..< n]) @ engine_log s\<rparr>)"
  using assms
proof (induction n arbitrary: s)
  case 0
  then show ?case by simp
next
  case (Suc n)
  then obtain m where m: "material s = Some m" by auto
  define s1 where "s1 = s\<lparr>material_instances :=
                 material_instances s @ [\<lparr>mi_id = engine_next s, scissor = None\<rparr>],
               engine_next := Suc (engine_next s),
               engine_log := Ev_CreateMI (engine_next s) # engine_log s\<rparr>"
  have "material s1 \<noteq> None" using m by (simp add: s1_def)
  then have ih: "create_instances n s1 =
     Some (s1\<lparr>material_instances :=
               material_instances s1 @
               map (\<lambda>k. \<lparr>mi_id = engine_next s1 + k, scissor = None\<rparr>) [0 ..< n],
             engine_next := engine_next s1 + n,
             engine_log := map (\<lambda>k. Ev_CreateMI (engine_next s1 + k)) (rev [0 ..< n]) @ engine_log s1\<rparr>)"
    using Suc.IH [of s1] by simp
  have shift: "[0 ..< Suc n] = 0 # map Suc [0 ..< n]"
    by (simp only: upt_conv_Cons zero_less_Suc map_Suc_upt)
  have "create_instances (Suc n) s = create_instances n s1"
    using m by (simp add: s1_def)
  also note ih
  finally show ?case
    by (simp only: shift) (simp add: s1_def comp_def rev_map)
qed

lemma ensure_material_instances_spec:
  assumes "material s \<noteq> None"
  shows "\<exists>news. ensure_material_instances u s =
       Some (s\<lparr>material_instances := material_instances s @ news,
               engine_next := engine_next s + length news,
               engine_log := map (\<lambda>m. Ev_CreateMI (mi_id m)) (rev news) @ engine_log s\<rparr>) \<and>
     length news = u - length (material_instances s) \<and>
     map mi_id news = map (\<lambda>k. engine_next s + k) [0 ..< length news]"
proof (cases "u > length (material_instances s)")
  case True
  define n where "n = u - length (material_instances s)"
  define news where "news = map (\<lambda>k. \<lparr>mi_id = engine_next s + k, scissor = None\<rparr>) [0 ..< n]"
  have "ensure_material_instances u s = create_instances n s"
    using True by (simp add: ensure_material_instances_def n_def)
  also have "\<dots> = Some (s\<lparr>material_instances := material_instances s @ news,
               engine_next := engine_next s + length news,
               engine_log := map (\<lambda>m. Ev_CreateMI (mi_id m)) (rev news) @ engine_log s\<rparr>)"
    using create_instances_spec [of n s] assms by (simp add: news_def rev_map comp_def)
  finally show ?thesis
    by (intro exI [of _ news]) (simp add: news_def n_def comp_def)
next
  case False
  then show ?thesis
    by (intro exI [of _ "[]"]) (simp add: ensure_material_instances_def)
qed

lemma push_scissors_spec:
  "i + length keys \<le> length (material_instances s) \<Longrightarrow>
   \<exists>pool'. push_scissors keys i s =
       Some (s\<lparr>material_instances := pool'\<rparr>,
             zip keys (map mi_id (take (length keys) (drop i (material_instances s))))) \<and>
     map mi_id pool' = map mi_id (material_instances s) \<and>
     (\<forall>j < i. pool' ! j = material_instances s ! j) \<and>
     (\<forall>j < length keys. scissor (pool' ! (i + j)) = Some (key_fields (keys ! j)))"
proof (induction keys arbitrary: i s)
  case Nil
  show ?case
    by (intro exI [of _ "material_instances s"]) simp
next
  case (Cons key keys)
  then have i: "i < length (material_instances s)" by simp
  define mi where "mi = material_instances s ! i"
  define s1 where "s1 = s\<lparr>material_instances :=
      (material_instances s)[i := mi\<lparr>scissor := Some (key_fields key)\<rparr>]\<rparr>"
  have len1: "Suc i + length keys \<le> length (material_instances s1)"
    using Cons.prems by (simp add: s1_def)
  from Cons.IH [OF len1] obtain pool' where
    p: "push_scissors keys (Suc i) s1 =
         Some (s1\<lparr>material_instances := pool'\<rparr>,
               zip keys (map mi_id (take (length keys) (drop (Suc i) (material_instances s1)))))"
       "map mi_id pool' = map mi_id (material_instances s1)"
       "\<forall>j < Suc i. pool' ! j = material_instances s1 ! j"
       "\<forall>j < length keys. scissor (pool' ! (Suc i + j)) = Some (key_fields (keys ! j))"
    by auto
  have ids1: "map mi_id (material_instances s1) = map mi_id (material_instances s)"
    using i by (simp add: s1_def mi_def map_update list_update_same_conv)
  have drop1: "drop (Suc i) (material_instances s1) = drop (Suc i) (material_instances s)"
    by (simp add: s1_def)
  have hd: "take (length (key # keys)) (drop i (material_instances s)) =
            mi # take (length keys) (drop (Suc i) (material_instances s))"
    using i by (simp add: mi_def Cons_nth_drop_Suc [symmetric])
  have run: "push_scissors (key # keys) i s =
       Some (s\<lparr>material_instances := pool'\<rparr>,
             zip (key # keys) (map mi_id (take (length (key # keys)) (drop i (material_instances s)))))"
    using i p(1)
    by (simp only: hd)
       (simp add: vec_at_def mi_def [symmetric] s1_def [symmetric] drop1, simp add: s1_def)
  have at_i: "pool' ! i = mi\<lparr>scissor := Some (key_fields key)\<rparr>"
    using p(3) i by (simp add: s1_def)
  have before: "\<forall>j < i. pool' ! j = material_instances s ! j"
    using p(3) by (simp add: s1_def)
  have sc: "\<forall>j < length (key # keys). scissor (pool' ! (i + j)) = Some (key_fields ((key # keys) ! j))"
  proof (intro allI impI)
    fix j assume j: "j < length (key # keys)"
    show "scissor (pool' ! (i + j)) = Some (key_fields ((key # keys) ! j))"
    proof (cases j)
      case 0
      with at_i show ?thesis by simp
    next
      case (Suc j')
      with j p(4) show ?thesis by simp
    qed
  qed
  show ?case
    using run p(2) ids1 sc before by (intro exI [of _ pool']) simp
qed

subsection \<open>The loop over the commands of a draw list\<close>

lemma entries_of_set:
  "length ps < n \<Longrightarrow> (entries_of n ps)[length ps := Some p] = entries_of n (ps @ [p])"
proof -
  assume lt: "length ps < n"
  then have "n - length ps = Suc (n - Suc (length ps))" by simp
  then have "replicate (n - length ps) (None :: Primitive option) =
             None # replicate (n - Suc (length ps)) None"
    by (simp only: replicate_Suc)
  then show ?thesis
    by (simp add: entries_of_def list_update_append)
qed

lemma length_list_primitives:
  "length (list_primitives pf fbheight rects vb ib first off cmds) = length (drawn cmds)"
  by (induction cmds arbitrary: first off) (simp_all add: drawn_def)

lemma emit_cmds_spec:
  assumes "\<forall>pcmd \<in> set cmds. map_of rects (makeScissorKey pf fbheight (ClipRect pcmd)) \<noteq> None"
    and "length ps + length (drawn cmds) \<le> n"
  shows "emit_cmds pf fbheight rects vb ib cmds (entries_of n ps, length ps, off, log) =
     Some (entries_of n (ps @ list_primitives pf fbheight rects vb ib (length ps) off cmds),
           length ps + length (drawn cmds),
           off + sum_list (map ElemCount cmds),
           replicate (length (filter UserCallback cmds)) Ev_UserCallback @ log)"
  using assms
proof (induction cmds arbitrary: ps off log)
  case Nil
  then show ?case by (simp add: drawn_def)
next
  case (Cons pcmd rest)
  show ?case
  proof (cases "UserCallback pcmd")
    case True
    with Cons.prems have "length ps + length (drawn rest) \<le> n" by (simp add: drawn_def)
    with Cons.IH [of ps "off + ElemCount pcmd" "Ev_UserCallback # log"] Cons.prems(1) True
    show ?thesis
      by (simp add: drawn_def replicate_app_Cons_same add.assoc)
  next
    case False
    from Cons.prems(1) obtain mi where
      mi: "map_of rects (makeScissorKey pf fbheight (ClipRect pcmd)) = Some mi" by auto
    define p where "p = \<lparr>prim_vertices = vb, prim_indices = ib, prim_offset = off,
        prim_count = ElemCount pcmd, prim_blendOrder = length ps, prim_material = mi\<rparr>"
    from Cons.prems(2) False have lt: "length ps < n"
      and room: "length (ps @ [p]) + length (drawn rest) \<le> n"
      by (simp_all add: drawn_def)
    from Cons.IH [of "ps @ [p]" "off + ElemCount pcmd" log] Cons.prems(1) room
    have "emit_cmds pf fbheight rects vb ib rest
            (entries_of n (ps @ [p]), Suc (length ps), off + ElemCount pcmd, log) =
          Some (entries_of n ((ps @ [p]) @
                  list_primitives pf fbheight rects vb ib (Suc (length ps)) (off + ElemCount pcmd) rest),
                Suc (length ps) + length (drawn rest),
                off + ElemCount pcmd + sum_list (map ElemCount rest),
                replicate (length (filter UserCallback rest)) Ev_UserCallback @ log)"
      by simp
    then show ?thesis
      using False mi entries_of_set [OF lt, of p]
      by (simp add: p_def drawn_def add.assoc)
  qed
qed

text \<open>What the primitives of one draw list are: their index sub-ranges are those of the
  specification, shifted by the starting offset; their materials are read from the map
  at the keys of the drawn commands; their blend orders count up from the first free
  entry.\<close>

lemma index_ranges_Cons:
  "index_ranges (pcmd # rest) =
     (if UserCallback pcmd then [] else [(0, ElemCount pcmd)]) @
     map (\<lambda>(off, cnt). (ElemCount pcmd + off, cnt)) (index_ranges rest)"
proof -
  have shift: "[0 ..< length (pcmd # rest)] = 0 # map Suc [0 ..< length rest]"
    by (simp only: length_Cons upt_conv_Cons zero_less_Suc map_Suc_upt)
  show ?thesis
    unfolding index_ranges_def shift
    by (simp add: filter_map comp_def)
qed

lemma list_primitives_ranges:
  "map (\<lambda>p. (prim_offset p, prim_count p)) (list_primitives pf fbheight rects vb ib first off cmds) =
   map (\<lambda>(o', cnt). (off + o', cnt)) (index_ranges cmds)"
proof (induction cmds arbitrary: first off)
  case Nil
  show ?case by (simp add: index_ranges_def)
next
  case (Cons pcmd rest)
  show ?case
    by (simp add: index_ranges_Cons Cons.IH comp_def case_prod_unfold add.assoc)
qed

lemma list_primitives_materials:
  "map prim_material (list_primitives pf fbheight rects vb ib first off cmds) =
   map (\<lambda>pcmd. the (map_of rects (makeScissorKey pf fbheight (ClipRect pcmd)))) (drawn cmds)"
  by (induction cmds arbitrary: first off) (simp_all add: drawn_def)

lemma list_primitives_blendOrder:
  "map prim_blendOrder (list_primitives pf fbheight rects vb ib first off cmds) =
   [first ..< first + length (drawn cmds)]"
proof (induction cmds arbitrary: first off)
  case Nil
  show ?case by (simp add: drawn_def)
next
  case (Cons pcmd rest)
  show ?case
  proof (cases "UserCallback pcmd")
    case True
    then show ?thesis by (simp add: Cons.IH drawn_def)
  next
    case False
    have "first < Suc (first + length (drawn rest))" by simp
    from upt_conv_Cons [OF this]
    have "[first ..< Suc (first + length (drawn rest))] =
          first # [Suc first ..< Suc (first + length (drawn rest))]" .
    with False show ?thesis
      by (simp add: Cons.IH drawn_def del: upt_Suc)
  qed
qed

subsection \<open>The loop over the draw lists\<close>

lemma buf_step_callbacks:
  "buf_step pf s (s\<lparr>engine_log := replicate k Ev_UserCallback @ engine_log s\<rparr>)"
  by (simp add: buf_step_def sync_ok_def fence_waits_def buffer_creations_def)

lemma capacity_log [simp]:
  "vertex_capacity (s\<lparr>engine_log := l\<rparr>) i = vertex_capacity s i"
  "index_capacity (s\<lparr>engine_log := l\<rparr>) i = index_capacity s i"
  by (simp_all add: vertex_capacity_def index_capacity_def)

lemma capacity_eq:
  "length (vertex_buffers s') = length (vertex_buffers s) \<Longrightarrow>
   vertex_buffers s' ! i = vertex_buffers s ! i \<Longrightarrow> vertex_capacity s' i = vertex_capacity s i"
  "length (index_buffers s') = length (index_buffers s) \<Longrightarrow>
   index_buffers s' ! i = index_buffers s ! i \<Longrightarrow> index_capacity s' i = index_capacity s i"
  by (simp_all add: vertex_capacity_def index_capacity_def buffer_at_def vec_at_def)

lemma capacity_at:
  "buffer_at (vertex_buffers s) i = Some vb \<Longrightarrow> vertex_capacity s i = vertexCount vb"
  "buffer_at (index_buffers s) i = Some ib \<Longrightarrow> index_capacity s i = indexCount ib"
  by (simp_all add: vertex_capacity_def index_capacity_def)

lemma slots_filled_Nil: "slots_filled b [] s s"
  unfolding slots_filled_def by simp

lemma slots_filledD:
  assumes "slots_filled b cmdLists s s'"
  shows "length (vertex_buffers s') = length (vertex_buffers s)"
    and "length (index_buffers s') = length (index_buffers s)"
    and "b \<le> i \<Longrightarrow> i < b + length cmdLists \<Longrightarrow>
         vertex_capacity s' i = max (vertex_capacity s i) (VtxBuffer_Size (cmdLists ! (i - b)))"
    and "b \<le> i \<Longrightarrow> i < b + length cmdLists \<Longrightarrow>
         index_capacity s' i = max (index_capacity s i) (IdxBuffer_Size (cmdLists ! (i - b)))"
    and "\<not> (b \<le> i \<and> i < b + length cmdLists) \<Longrightarrow> vertex_buffers s' ! i = vertex_buffers s ! i"
    and "\<not> (b \<le> i \<and> i < b + length cmdLists) \<Longrightarrow> index_buffers s' ! i = index_buffers s ! i"
    and "vertex_buffers s ! i \<noteq> None \<Longrightarrow> vertex_buffers s' ! i \<noteq> None"
    and "index_buffers s ! i \<noteq> None \<Longrightarrow> index_buffers s' ! i \<noteq> None"
  using assms unfolding slots_filled_def by blast+

lemma slots_filled_Cons:
  assumes len: "length (vertex_buffers s1) = length (vertex_buffers s)"
      "length (index_buffers s1) = length (index_buffers s)"
    and other: "\<forall>j. j \<noteq> b \<longrightarrow> vertex_buffers s1 ! j = vertex_buffers s ! j \<and>
                               index_buffers s1 ! j = index_buffers s ! j"
    and here: "vertex_buffers s1 ! b \<noteq> None" "index_buffers s1 ! b \<noteq> None"
    and caps: "vertex_capacity s1 b = max (vertex_capacity s b) (VtxBuffer_Size cmds)"
      "index_capacity s1 b = max (index_capacity s b) (IdxBuffer_Size cmds)"
    and rest: "slots_filled (Suc b) rest s1 s'"
  shows "slots_filled b (cmds # rest) s s'"
  unfolding slots_filled_def
proof (intro conjI allI impI)
  note d = slots_filledD [OF rest]
  show "length (vertex_buffers s') = length (vertex_buffers s)"
    using d(1) len(1) by (rule trans)
  show "length (index_buffers s') = length (index_buffers s)"
    using d(2) len(2) by (rule trans)
  {
    fix i assume i: "b \<le> i \<and> i < b + length (cmds # rest)"
    show "vertex_capacity s' i = max (vertex_capacity s i) (VtxBuffer_Size ((cmds # rest) ! (i - b)))"
    proof (cases "i = b")
      case True
      have "\<not> (Suc b \<le> b \<and> b < Suc b + length rest)" by simp
      from d(5) [OF this] d(1) have "vertex_capacity s' b = vertex_capacity s1 b"
        by (rule capacity_eq(1) [rotated])
      with caps(1) True show ?thesis by simp
    next
      case False
      with i have r: "Suc b \<le> i" "i < Suc b + length rest" by simp_all
      from other False have "vertex_buffers s1 ! i = vertex_buffers s ! i" by blast
      with len(1) have "vertex_capacity s1 i = vertex_capacity s i" by (rule capacity_eq(1))
      moreover have "(cmds # rest) ! (i - b) = rest ! (i - Suc b)"
        using r by (simp add: nth_Cons')
      ultimately show ?thesis using d(3) [OF r] by simp
    qed
    show "index_capacity s' i = max (index_capacity s i) (IdxBuffer_Size ((cmds # rest) ! (i - b)))"
    proof (cases "i = b")
      case True
      have "\<not> (Suc b \<le> b \<and> b < Suc b + length rest)" by simp
      from d(6) [OF this] d(2) have "index_capacity s' b = index_capacity s1 b"
        by (rule capacity_eq(2) [rotated])
      with caps(2) True show ?thesis by simp
    next
      case False
      with i have r: "Suc b \<le> i" "i < Suc b + length rest" by simp_all
      from other False have "index_buffers s1 ! i = index_buffers s ! i" by blast
      with len(2) have "index_capacity s1 i = index_capacity s i" by (rule capacity_eq(2))
      moreover have "(cmds # rest) ! (i - b) = rest ! (i - Suc b)"
        using r by (simp add: nth_Cons')
      ultimately show ?thesis using d(4) [OF r] by simp
    qed
  }
  {
    fix i assume i: "\<not> (b \<le> i \<and> i < b + length (cmds # rest))"
    then have r: "\<not> (Suc b \<le> i \<and> i < Suc b + length rest)" and ne: "i \<noteq> b" by auto
    from other ne have o: "vertex_buffers s1 ! i = vertex_buffers s ! i"
      "index_buffers s1 ! i = index_buffers s ! i" by blast+
    show "vertex_buffers s' ! i = vertex_buffers s ! i"
      using d(5) [OF r] o(1) by (rule trans)
    show "index_buffers s' ! i = index_buffers s ! i"
      using d(6) [OF r] o(2) by (rule trans)
  }
  {
    fix i assume nn: "vertex_buffers s ! i \<noteq> None"
    have "vertex_buffers s1 ! i \<noteq> None"
    proof (cases "i = b")
      case True
      with here(1) show ?thesis by simp
    next
      case False
      with other have "vertex_buffers s1 ! i = vertex_buffers s ! i" by blast
      with nn show ?thesis by simp
    qed
    then show "vertex_buffers s' ! i \<noteq> None" by (rule d(7))
  }
  {
    fix i assume nn: "index_buffers s ! i \<noteq> None"
    have "index_buffers s1 ! i \<noteq> None"
    proof (cases "i = b")
      case True
      with here(2) show ?thesis by simp
    next
      case False
      with other have "index_buffers s1 ! i = index_buffers s ! i" by blast
      with nn show ?thesis by simp
    qed
    then show "index_buffers s' ! i \<noteq> None" by (rule d(8))
  }
qed

lemma slots_filled_log:
  "slots_filled b cmdLists (s\<lparr>engine_log := l\<rparr>) s' = slots_filled b cmdLists s s'"
  unfolding slots_filled_def by simp

lemma populate_list_spec:
  assumes "buffer_at (vertex_buffers s) b = Some vb0"
    and "buffer_at (index_buffers s) b = Some ib0"
  shows "\<exists>s1 vb ib.
      populateVertexData pf b (VtxBuffer_Size cmds * sizeof_ImDrawVert)
           (IdxBuffer_Size cmds * sizeof_ImDrawIdx) s = Some s1 \<and>
      buf_step pf s s1 \<and>
      length (vertex_buffers s1) = length (vertex_buffers s) \<and>
      length (index_buffers s1) = length (index_buffers s) \<and>
      (\<forall>j. j \<noteq> b \<longrightarrow> vertex_buffers s1 ! j = vertex_buffers s ! j \<and>
                     index_buffers s1 ! j = index_buffers s ! j) \<and>
      vertex_buffers s1 ! b = Some vb \<and> index_buffers s1 ! b = Some ib \<and>
      vertexCount vb = max (vertexCount vb0) (VtxBuffer_Size cmds) \<and>
      indexCount ib = max (indexCount ib0) (IdxBuffer_Size cmds)"
proof -
  from populateVertexData_spec [OF assms,
      of pf "VtxBuffer_Size cmds * sizeof_ImDrawVert" "IdxBuffer_Size cmds * sizeof_ImDrawIdx"]
  obtain s1 vb ib where
    "populateVertexData pf b (VtxBuffer_Size cmds * sizeof_ImDrawVert)
           (IdxBuffer_Size cmds * sizeof_ImDrawIdx) s = Some s1"
    "buf_step pf s s1"
    "length (vertex_buffers s1) = length (vertex_buffers s)"
    "length (index_buffers s1) = length (index_buffers s)"
    "\<forall>j. j \<noteq> b \<longrightarrow> vertex_buffers s1 ! j = vertex_buffers s ! j \<and>
                     index_buffers s1 ! j = index_buffers s ! j"
    "vertex_buffers s1 ! b = Some vb" "index_buffers s1 ! b = Some ib"
    "vertexCount vb =
       max (vertexCount vb0) (VtxBuffer_Size cmds * sizeof_ImDrawVert div sizeof_ImDrawVert)"
    "indexCount ib = max (indexCount ib0) (IdxBuffer_Size cmds * sizeof_ImDrawIdx div 2)"
    by blast
  then show ?thesis
    by (intro exI [of _ s1] exI [of _ vb] exI [of _ ib]) (simp add: vertices_div indices_div)
qed

lemma emit_lists_spec:
  assumes "\<forall>i < length cmdLists.
             (\<exists>vb. buffer_at (vertex_buffers s) (b + i) = Some vb) \<and>
             (\<exists>ib. buffer_at (index_buffers s) (b + i) = Some ib)"
    and "\<forall>cmds \<in> set cmdLists. \<forall>pcmd \<in> set (CmdBuffer cmds).
           map_of rects (makeScissorKey pf fbheight (ClipRect pcmd)) \<noteq> None"
    and "length ps + length (concat (map (\<lambda>cmds. drawn (CmdBuffer cmds)) cmdLists)) \<le> n"
  shows "\<exists>s' ps'.
     emit_lists pf fbheight rects cmdLists b (s, entries_of n ps, length ps) =
       Some (s', entries_of n (ps @ ps'), length ps + length ps') \<and>
     map (\<lambda>p. (prim_offset p, prim_count p)) ps' =
       concat (map (\<lambda>cmds. index_ranges (CmdBuffer cmds)) cmdLists) \<and>
     map prim_material ps' =
       map (\<lambda>pcmd. the (map_of rects (makeScissorKey pf fbheight (ClipRect pcmd))))
           (concat (map (\<lambda>cmds. drawn (CmdBuffer cmds)) cmdLists)) \<and>
     map prim_blendOrder ps' = [length ps ..< length ps + length ps'] \<and>
     buf_step pf s s' \<and> slots_filled b cmdLists s s'"
  using assms
proof (induction cmdLists arbitrary: b s ps)
  case Nil
  show ?case
    by (intro exI [of _ s] exI [of _ "[]"]) (simp add: buf_step_refl slots_filled_Nil)
next
  case (Cons cmds rest)
  have "0 < length (cmds # rest)" by simp
  with Cons.prems(1) have
    "(\<exists>vb. buffer_at (vertex_buffers s) (b + 0) = Some vb) \<and>
     (\<exists>ib. buffer_at (index_buffers s) (b + 0) = Some ib)"
    by blast
  then obtain vb0 ib0 where
    b0: "buffer_at (vertex_buffers s) b = Some vb0" "buffer_at (index_buffers s) b = Some ib0"
    by auto
  from populate_list_spec [OF b0, of pf cmds]
  obtain s1 vb ib where
    s1all: "populateVertexData pf b (VtxBuffer_Size cmds * sizeof_ImDrawVert)
           (IdxBuffer_Size cmds * sizeof_ImDrawIdx) s = Some s1 \<and>
      buf_step pf s s1 \<and>
      length (vertex_buffers s1) = length (vertex_buffers s) \<and>
      length (index_buffers s1) = length (index_buffers s) \<and>
      (\<forall>j. j \<noteq> b \<longrightarrow> vertex_buffers s1 ! j = vertex_buffers s ! j \<and>
                     index_buffers s1 ! j = index_buffers s ! j) \<and>
      vertex_buffers s1 ! b = Some vb \<and> index_buffers s1 ! b = Some ib \<and>
      vertexCount vb = max (vertexCount vb0) (VtxBuffer_Size cmds) \<and>
      indexCount ib = max (indexCount ib0) (IdxBuffer_Size cmds)"
    by blast
  then have
    s1: "populateVertexData pf b (VtxBuffer_Size cmds * sizeof_ImDrawVert)
           (IdxBuffer_Size cmds * sizeof_ImDrawIdx) s = Some s1"
      "buf_step pf s s1"
      "length (vertex_buffers s1) = length (vertex_buffers s)"
      "length (index_buffers s1) = length (index_buffers s)"
      "\<forall>j. j \<noteq> b \<longrightarrow> vertex_buffers s1 ! j = vertex_buffers s ! j \<and>
                     index_buffers s1 ! j = index_buffers s ! j"
      "vertex_buffers s1 ! b = Some vb" "index_buffers s1 ! b = Some ib"
      "vertexCount vb = max (vertexCount vb0) (VtxBuffer_Size cmds)"
      "indexCount ib = max (indexCount ib0) (IdxBuffer_Size cmds)"
    by simp_all
  from b0 s1(3,4,6,7) have at1:
    "buffer_at (vertex_buffers s1) b = Some vb" "buffer_at (index_buffers s1) b = Some ib"
    by (simp_all add: buffer_at_Some)
  define lp where
    "lp = list_primitives pf fbheight rects (vb_id vb) (ib_id ib) (length ps) 0 (CmdBuffer cmds)"
  define k where "k = length (filter UserCallback (CmdBuffer cmds))"
  define s2 where "s2 = s1\<lparr>engine_log := replicate k Ev_UserCallback @ engine_log s1\<rparr>"
  have keys: "\<forall>pcmd \<in> set (CmdBuffer cmds).
      map_of rects (makeScissorKey pf fbheight (ClipRect pcmd)) \<noteq> None"
    using Cons.prems(2) by simp
  have room: "length ps + length (drawn (CmdBuffer cmds)) \<le> n"
    using Cons.prems(3) by simp
  have cmds_run: "emit_cmds pf fbheight rects (vb_id vb) (ib_id ib) (CmdBuffer cmds)
        (entries_of n ps, length ps, 0, engine_log s1) =
      Some (entries_of n (ps @ lp), length ps + length (drawn (CmdBuffer cmds)),
            0 + sum_list (map ElemCount (CmdBuffer cmds)),
            replicate k Ev_UserCallback @ engine_log s1)"
    unfolding lp_def k_def by (rule emit_cmds_spec [OF keys room])
  have len_lp: "length lp = length (drawn (CmdBuffer cmds))"
    by (simp add: lp_def length_list_primitives)
  have slots2: "\<forall>i < length rest.
             (\<exists>vb. buffer_at (vertex_buffers s2) (Suc b + i) = Some vb) \<and>
             (\<exists>ib. buffer_at (index_buffers s2) (Suc b + i) = Some ib)"
  proof (intro allI impI)
    fix i assume "i < length rest"
    then have "Suc i < length (cmds # rest)" by simp
    with Cons.prems(1) have
      "(\<exists>vb. buffer_at (vertex_buffers s) (b + Suc i) = Some vb) \<and>
       (\<exists>ib. buffer_at (index_buffers s) (b + Suc i) = Some ib)"
      by blast
    then show "(\<exists>vb. buffer_at (vertex_buffers s2) (Suc b + i) = Some vb) \<and>
             (\<exists>ib. buffer_at (index_buffers s2) (Suc b + i) = Some ib)"
      using s1(3,4,5) by (simp add: s2_def buffer_at_Some)
  qed
  have keys2: "\<forall>cmds \<in> set rest. \<forall>pcmd \<in> set (CmdBuffer cmds).
           map_of rects (makeScissorKey pf fbheight (ClipRect pcmd)) \<noteq> None"
    using Cons.prems(2) by simp
  have room2: "length (ps @ lp) + length (concat (map (\<lambda>cmds. drawn (CmdBuffer cmds)) rest)) \<le> n"
    using Cons.prems(3) len_lp by simp
  from Cons.IH [OF slots2 keys2 room2] obtain s' ps' where
    r: "emit_lists pf fbheight rects rest (Suc b) (s2, entries_of n (ps @ lp), length (ps @ lp)) =
          Some (s', entries_of n ((ps @ lp) @ ps'), length (ps @ lp) + length ps')"
       "map (\<lambda>p. (prim_offset p, prim_count p)) ps' =
          concat (map (\<lambda>cmds. index_ranges (CmdBuffer cmds)) rest)"
       "map prim_material ps' =
          map (\<lambda>pcmd. the (map_of rects (makeScissorKey pf fbheight (ClipRect pcmd))))
              (concat (map (\<lambda>cmds. drawn (CmdBuffer cmds)) rest))"
       "map prim_blendOrder ps' = [length (ps @ lp) ..< length (ps @ lp) + length ps']"
       "buf_step pf s2 s'" "slots_filled (Suc b) rest s2 s'"
    by blast
  have run: "emit_lists pf fbheight rects (cmds # rest) b (s, entries_of n ps, length ps) =
       Some (s', entries_of n (ps @ (lp @ ps')), length ps + length (lp @ ps'))"
    using s1(1) at1 cmds_run r(1) len_lp by (simp add: s2_def add.assoc)
  have ranges: "map (\<lambda>p. (prim_offset p, prim_count p)) (lp @ ps') =
       concat (map (\<lambda>cmds. index_ranges (CmdBuffer cmds)) (cmds # rest))"
    using r(2) by (simp add: lp_def list_primitives_ranges)
  have mats: "map prim_material (lp @ ps') =
       map (\<lambda>pcmd. the (map_of rects (makeScissorKey pf fbheight (ClipRect pcmd))))
           (concat (map (\<lambda>cmds. drawn (CmdBuffer cmds)) (cmds # rest)))"
    using r(3) by (simp add: lp_def list_primitives_materials)
  have "map prim_blendOrder lp = [length ps ..< length ps + length lp]"
    by (simp add: lp_def list_primitives_blendOrder length_list_primitives)
  moreover have "[length ps ..< length ps + length lp + length ps'] =
      [length ps ..< length ps + length lp] @
      [length ps + length lp ..< length ps + length lp + length ps']"
    by (rule upt_add_eq_append) simp
  ultimately have blend:
    "map prim_blendOrder (lp @ ps') = [length ps ..< length ps + length (lp @ ps')]"
    using r(4) by (simp add: add.assoc)
  have "buf_step pf s1 s2" unfolding s2_def by (rule buf_step_callbacks)
  with s1(2) r(5) have step: "buf_step pf s s'" by (blast intro: buf_step_trans)
  have caps: "vertex_capacity s1 b = max (vertex_capacity s b) (VtxBuffer_Size cmds)"
      "index_capacity s1 b = max (index_capacity s b) (IdxBuffer_Size cmds)"
    using at1 b0 s1(8,9) by (simp_all add: capacity_at)
  have "slots_filled (Suc b) rest s1 s'"
    using r(6) by (simp add: s2_def slots_filled_log)
  with s1(3,4,5) caps have filled: "slots_filled b (cmds # rest) s s'"
    using s1(6,7) by (intro slots_filled_Cons [where ?s1.0 = s1]) simp_all
  show ?case
    using run ranges mats blend step filled
    by (intro exI [of _ s'] exI [of _ "lp @ ps'"]) simp
qed

subsection \<open>A whole frame\<close>

lemma length_key_order:
  "platform_ok pf \<Longrightarrow> length (key_order pf keys) = length (remdups keys)"
proof -
  assume "platform_ok pf"
  then have d: "distinct (key_order pf keys)" and s: "set (key_order pf keys) = set keys"
    by (simp_all add: platform_ok_def)
  from d have "length (key_order pf keys) = card (set (key_order pf keys))"
    by (simp add: distinct_card)
  with s show ?thesis by (simp add: length_remdups_card_conv)
qed

lemma counts_other_fields [simp]:
  "fence_waits (s\<lparr>material_instances := p\<rparr>) = fence_waits s"
  "fence_waits (s\<lparr>renderable := r\<rparr>) = fence_waits s"
  "fence_waits (s\<lparr>engine_next := e\<rparr>) = fence_waits s"
  "fence_waits (s\<lparr>has_synced := h\<rparr>) = fence_waits s"
  "buffer_creations (s\<lparr>material_instances := p\<rparr>) = buffer_creations s"
  "buffer_creations (s\<lparr>renderable := r\<rparr>) = buffer_creations s"
  "buffer_creations (s\<lparr>engine_next := e\<rparr>) = buffer_creations s"
  "buffer_creations (s\<lparr>has_synced := h\<rparr>) = buffer_creations s"
  by (simp_all add: fence_waits_def buffer_creations_def)

lemma counts_create_mi [simp]:
  "fence_waits (s\<lparr>engine_log := map (\<lambda>m. Ev_CreateMI (f m)) xs @ engine_log s\<rparr>) = fence_waits s"
  "buffer_creations (s\<lparr>engine_log := map (\<lambda>m. Ev_CreateMI (f m)) xs @ engine_log s\<rparr>) =
     buffer_creations s"
  by (simp_all add: fence_waits_def buffer_creations_def filter_map comp_def)

lemma capacity_other_fields [simp]:
  "vertex_capacity (s\<lparr>material_instances := p\<rparr>) i = vertex_capacity s i"
  "vertex_capacity (s\<lparr>renderable := r\<rparr>) i = vertex_capacity s i"
  "vertex_capacity (s\<lparr>engine_next := e\<rparr>) i = vertex_capacity s i"
  "vertex_capacity (s\<lparr>has_synced := h\<rparr>) i = vertex_capacity s i"
  "index_capacity (s\<lparr>material_instances := p\<rparr>) i = index_capacity s i"
  "index_capacity (s\<lparr>renderable := r\<rparr>) i = index_capacity s i"
  "index_capacity (s\<lparr>engine_next := e\<rparr>) i = index_capacity s i"
  "index_capacity (s\<lparr>has_synced := h\<rparr>) i = index_capacity s i"
  by (simp_all add: vertex_capacity_def index_capacity_def)

lemma sync_ok_same:
  "sync_ok pf c0 n0 s \<Longrightarrow> has_synced t = has_synced s \<Longrightarrow> fence_waits t = fence_waits s \<Longrightarrow>
   buffer_creations t = buffer_creations s \<Longrightarrow> sync_ok pf c0 n0 t"
  by (simp add: sync_ok_def)

text \<open>The assignment of material instances to keys: the map built from distinct keys and
  distinct instances gives every key an instance, different keys different ones.\<close>

lemma assign_zip:
  assumes "distinct ks" and "distinct ids" and "length ids = length ks"
  shows "\<forall>j < length ks. map_of (zip ks ids) (ks ! j) = Some (ids ! j)"
    and "inj_on (\<lambda>k. the (map_of (zip ks ids) k)) (set ks)"
proof -
  show nth: "\<forall>j < length ks. map_of (zip ks ids) (ks ! j) = Some (ids ! j)"
    using assms by (simp add: map_of_zip_nth)
  show "inj_on (\<lambda>k. the (map_of (zip ks ids) k)) (set ks)"
  proof (rule inj_onI)
    fix x y assume x: "x \<in> set ks" and y: "y \<in> set ks"
      and eq: "the (map_of (zip ks ids) x) = the (map_of (zip ks ids) y)"
    from x obtain i where i: "i < length ks" "ks ! i = x" by (auto simp: in_set_conv_nth)
    from y obtain j where j: "j < length ks" "ks ! j = y" by (auto simp: in_set_conv_nth)
    from nth i j eq have "ids ! i = ids ! j" by auto
    with assms(2,3) i(1) j(1) have "i = j" by (simp add: nth_eq_iff_index_eq)
    with i j show "x = y" by simp
  qed
qed

lemma createBuffers_slots:
  assumes "slots_ok s"
  shows "\<exists>s1. createBuffers pf n s = Some s1 \<and> buf_step pf s s1 \<and>
     length (vertex_buffers s1) = max n (length (vertex_buffers s)) \<and>
     length (index_buffers s1) = max n (length (index_buffers s)) \<and>
     (\<forall>i < length (vertex_buffers s1). \<exists>vb. vertex_buffers s1 ! i = Some vb) \<and>
     (\<forall>i < length (index_buffers s1). \<exists>ib. index_buffers s1 ! i = Some ib) \<and>
     (\<forall>i. vertex_capacity s1 i =
        (if i < length (vertex_buffers s) then vertex_capacity s i
         else if i < n then 1000 else vertex_capacity s i)) \<and>
     (\<forall>i. index_capacity s1 i =
        (if i < length (index_buffers s) then index_capacity s i
         else if i < n then 5000 else index_capacity s i))"
proof -
  from createBuffers_spec [of pf n s] obtain s1 where
    s1: "createBuffers pf n s = Some s1" "buf_step pf s s1"
      "length (vertex_buffers s1) = max n (length (vertex_buffers s))"
      "take (length (vertex_buffers s)) (vertex_buffers s1) = vertex_buffers s"
      "\<forall>j. length (vertex_buffers s) \<le> j \<and> j < n \<longrightarrow>
        (\<exists>b. vertex_buffers s1 ! j = Some b \<and> vertexCount b = 1000)"
      "length (index_buffers s1) = max n (length (index_buffers s))"
      "take (length (index_buffers s)) (index_buffers s1) = index_buffers s"
      "\<forall>j. length (index_buffers s) \<le> j \<and> j < n \<longrightarrow>
        (\<exists>b. index_buffers s1 ! j = Some b \<and> indexCount b = 5000)"
    by blast
  have oldv: "\<And>i. i < length (vertex_buffers s) \<Longrightarrow> vertex_buffers s1 ! i = vertex_buffers s ! i"
  proof -
    fix i assume "i < length (vertex_buffers s)"
    then have "take (length (vertex_buffers s)) (vertex_buffers s1) ! i = vertex_buffers s1 ! i"
      by simp
    with s1(4) show "vertex_buffers s1 ! i = vertex_buffers s ! i" by simp
  qed
  have oldi: "\<And>i. i < length (index_buffers s) \<Longrightarrow> index_buffers s1 ! i = index_buffers s ! i"
  proof -
    fix i assume "i < length (index_buffers s)"
    then have "take (length (index_buffers s)) (index_buffers s1) ! i = index_buffers s1 ! i"
      by simp
    with s1(7) show "index_buffers s1 ! i = index_buffers s ! i" by simp
  qed
  have nnv: "\<forall>i < length (vertex_buffers s1). \<exists>vb. vertex_buffers s1 ! i = Some vb"
  proof (intro allI impI)
    fix i assume i: "i < length (vertex_buffers s1)"
    show "\<exists>vb. vertex_buffers s1 ! i = Some vb"
    proof (cases "i < length (vertex_buffers s)")
      case True
      then have "vertex_buffers s ! i \<in> set (vertex_buffers s)" by simp
      with assms have "vertex_buffers s ! i \<noteq> None"
        by (cases "vertex_buffers s ! i") (auto simp: slots_ok_def)
      with oldv [OF True] show ?thesis by auto
    next
      case False
      with i s1(3) have "length (vertex_buffers s) \<le> i \<and> i < n" by (simp add: max_def split: if_splits)
      with s1(5) show ?thesis by blast
    qed
  qed
  have nni: "\<forall>i < length (index_buffers s1). \<exists>ib. index_buffers s1 ! i = Some ib"
  proof (intro allI impI)
    fix i assume i: "i < length (index_buffers s1)"
    show "\<exists>ib. index_buffers s1 ! i = Some ib"
    proof (cases "i < length (index_buffers s)")
      case True
      then have "index_buffers s ! i \<in> set (index_buffers s)" by simp
      with assms have "index_buffers s ! i \<noteq> None"
        by (cases "index_buffers s ! i") (auto simp: slots_ok_def)
      with oldi [OF True] show ?thesis by auto
    next
      case False
      with i s1(6) have "length (index_buffers s) \<le> i \<and> i < n" by (simp add: max_def split: if_splits)
      with s1(8) show ?thesis by blast
    qed
  qed
  have capv: "\<forall>i. vertex_capacity s1 i =
        (if i < length (vertex_buffers s) then vertex_capacity s i
         else if i < n then 1000 else vertex_capacity s i)"
  proof
    fix i
    show "vertex_capacity s1 i =
        (if i < length (vertex_buffers s) then vertex_capacity s i
         else if i < n then 1000 else vertex_capacity s i)"
    proof (cases "i < length (vertex_buffers s)")
      case True
      with oldv [OF True] s1(3) show ?thesis
        by (simp add: vertex_capacity_def buffer_at_def vec_at_def less_max_iff_disj)
    next
      case False
      show ?thesis
      proof (cases "i < n")
        case True
        with False s1(5) obtain b where "vertex_buffers s1 ! i = Some b" "vertexCount b = 1000"
          by (metis not_less)
        with True False s1(3) show ?thesis
          by (simp add: vertex_capacity_def buffer_at_def vec_at_def less_max_iff_disj)
      next
        case n: False
        with False s1(3) show ?thesis
          by (simp add: vertex_capacity_def buffer_at_def vec_at_def less_max_iff_disj)
      qed
    qed
  qed
  have capi: "\<forall>i. index_capacity s1 i =
        (if i < length (index_buffers s) then index_capacity s i
         else if i < n then 5000 else index_capacity s i)"
  proof
    fix i
    show "index_capacity s1 i =
        (if i < length (index_buffers s) then index_capacity s i
         else if i < n then 5000 else index_capacity s i)"
    proof (cases "i < length (index_buffers s)")
      case True
      with oldi [OF True] s1(6) show ?thesis
        by (simp add: index_capacity_def buffer_at_def vec_at_def less_max_iff_disj)
    next
      case False
      show ?thesis
      proof (cases "i < n")
        case True
        with False s1(8) obtain b where "index_buffers s1 ! i = Some b" "indexCount b = 5000"
          by (metis not_less)
        with True False s1(6) show ?thesis
          by (simp add: index_capacity_def buffer_at_def vec_at_def less_max_iff_disj)
      next
        case n: False
        with False s1(6) show ?thesis
          by (simp add: index_capacity_def buffer_at_def vec_at_def less_max_iff_disj)
      qed
    qed
  qed
  from s1(1,2,3,6) nnv nni capv capi show ?thesis by blast
qed

lemma drawn_le: "length (concat (map (\<lambda>cmds. drawn (CmdBuffer cmds)) cmdLists)) \<le>
    sum_list (map (\<lambda>cmds. length (CmdBuffer cmds)) cmdLists)"
  by (induction cmdLists) (simp_all add: drawn_def add_mono)

lemma set_frame_keys:
  "set (frame_keys pf fbheight cmdLists) =
     (\<Union>cmds \<in> set cmdLists. (\<lambda>pcmd. makeScissorKey pf fbheight (ClipRect pcmd)) ` set (CmdBuffer cmds))"
  by (simp add: frame_keys_def)

text \<open>Everything later sections use about \<^verbatim>\<open>update\<close> past its early return, for a bridge that
  satisfies \<open>bridge_ok\<close>: the call returns a bridge that satisfies it again; the Renderable
  holds one entry per draw command, the first of them filled with the primitives \<open>ps\<close> of
  the drawn commands and the others empty; \<open>assign\<close> is the material instance of each key.\<close>

lemma render_frame_spec:
  fixes pf :: "'f platform" and cmdLists :: "'f ImDrawList list" and fbheight :: int
  defines "keys \<equiv> frame_keys pf fbheight cmdLists"
    and "n \<equiv> sum_list (map (\<lambda>cmds. length (CmdBuffer cmds)) cmdLists)"
    and "all_drawn \<equiv> concat (map (\<lambda>cmds. drawn (CmdBuffer cmds)) cmdLists)"
  assumes pok: "platform_ok pf" and bok: "bridge_ok s"
  shows "\<exists>s' ps assign.
    render_frame pf fbheight cmdLists s = Some s' \<and>
    bridge_ok s' \<and> material s' = material s \<and>
    renderable s' = (if cmdLists = [] then None else Some (entries_of n ps)) \<and>
    length ps = length all_drawn \<and> length ps \<le> n \<and>
    map (\<lambda>p. (prim_offset p, prim_count p)) ps =
      concat (map (\<lambda>cmds. index_ranges (CmdBuffer cmds)) cmdLists) \<and>
    map prim_blendOrder ps = [0 ..< length ps] \<and>
    map prim_material ps =
      map (\<lambda>pcmd. assign (makeScissorKey pf fbheight (ClipRect pcmd))) all_drawn \<and>
    inj_on assign (set keys) \<and>
    (\<forall>k \<in> set keys. \<exists>j < length (remdups keys).
        mi_id (material_instances s' ! j) = assign k \<and>
        scissor (material_instances s' ! j) = Some (key_fields k)) \<and>
    length (material_instances s') =
      max (length (material_instances s)) (length (remdups keys)) \<and>
    map mi_id (take (length (material_instances s)) (material_instances s')) =
      map mi_id (material_instances s) \<and>
    length (vertex_buffers s') = max (length cmdLists) (length (vertex_buffers s)) \<and>
    length (index_buffers s') = max (length cmdLists) (length (index_buffers s)) \<and>
    (\<forall>i. vertex_capacity s' i =
       (if i < length cmdLists
        then max (if i < length (vertex_buffers s) then vertex_capacity s i else 1000)
                 (VtxBuffer_Size (cmdLists ! i))
        else vertex_capacity s i)) \<and>
    (\<forall>i. index_capacity s' i =
       (if i < length cmdLists
        then max (if i < length (index_buffers s) then index_capacity s i else 5000)
                 (IdxBuffer_Size (cmdLists ! i))
        else index_capacity s i)) \<and>
    (\<forall>c0 n0. sync_ok pf c0 n0 s \<longrightarrow> sync_ok pf c0 n0 s')"
proof -
  from bok have mat: "material s \<noteq> None" and sok: "slots_ok s" and pool: "pool_ok s"
    by (simp_all add: bridge_ok_def)
  define u where "u = length (remdups keys)"
  define ko where "ko = key_order pf keys"
  have ko: "distinct ko" "set ko = set keys" "length ko = u"
    using pok length_key_order [OF pok, of keys] by (simp_all add: platform_ok_def ko_def u_def)
  \<comment> \<open>the buffers\<close>
  from createBuffers_slots [OF sok, of pf "length cmdLists"] obtain s1 where
    s1: "createBuffers pf (length cmdLists) s = Some s1" "buf_step pf s s1"
      "length (vertex_buffers s1) = max (length cmdLists) (length (vertex_buffers s))"
      "length (index_buffers s1) = max (length cmdLists) (length (index_buffers s))"
      "\<forall>i < length (vertex_buffers s1). \<exists>vb. vertex_buffers s1 ! i = Some vb"
      "\<forall>i < length (index_buffers s1). \<exists>ib. index_buffers s1 ! i = Some ib"
      "\<forall>i. vertex_capacity s1 i =
        (if i < length (vertex_buffers s) then vertex_capacity s i
         else if i < length cmdLists then 1000 else vertex_capacity s i)"
      "\<forall>i. index_capacity s1 i =
        (if i < length (index_buffers s) then index_capacity s i
         else if i < length cmdLists then 5000 else index_capacity s i)"
    by blast
  have s1f: "material s1 = material s" "material_instances s1 = material_instances s"
      "renderable s1 = renderable s" "engine_next s \<le> engine_next s1"
      "\<forall>c0 n0. sync_ok pf c0 n0 s \<longrightarrow> sync_ok pf c0 n0 s1"
    using s1(2) by (simp_all add: buf_step_def)
  \<comment> \<open>the pool\<close>
  from s1f(1) mat have "material s1 \<noteq> None" by simp
  from ensure_material_instances_spec [OF this, of u] obtain news where
    news: "ensure_material_instances u s1 =
       Some (s1\<lparr>material_instances := material_instances s1 @ news,
               engine_next := engine_next s1 + length news,
               engine_log := map (\<lambda>m. Ev_CreateMI (mi_id m)) (rev news) @ engine_log s1\<rparr>)"
      "length news = u - length (material_instances s1)"
      "map mi_id news = map (\<lambda>k. engine_next s1 + k) [0 ..< length news]"
    by blast
  define s2 where "s2 = s1\<lparr>material_instances := material_instances s1 @ news,
               engine_next := engine_next s1 + length news,
               engine_log := map (\<lambda>m. Ev_CreateMI (mi_id m)) (rev news) @ engine_log s1\<rparr>"
  define pool2 where "pool2 = material_instances s @ news"
  have pool2: "material_instances s2 = pool2" by (simp add: s2_def pool2_def s1f(2))
  have len2: "length pool2 = max (length (material_instances s)) u"
    using news(2) by (simp add: pool2_def s1f(2) max_def)
  from pool have old_d: "distinct (map mi_id (material_instances s))"
    and old_lt: "\<forall>m \<in> set (material_instances s). mi_id m < engine_next s"
    by (simp_all add: pool_ok_def list_all_iff)
  have new_ge: "\<forall>x \<in> set (map mi_id news). engine_next s1 \<le> x"
    by (simp only: news(3)) auto
  have new_lt: "\<forall>x \<in> set (map mi_id news). x < engine_next s1 + length news"
    by (simp only: news(3)) auto
  have new_d: "distinct (map mi_id news)"
    by (simp only: news(3)) (simp add: distinct_map inj_on_def)
  have dist2: "distinct (map mi_id pool2)"
    unfolding pool2_def map_append distinct_append
  proof (intro conjI)
    show "distinct (map mi_id (material_instances s))" by (rule old_d)
    show "distinct (map mi_id news)" by (rule new_d)
    show "set (map mi_id (material_instances s)) \<inter> set (map mi_id news) = {}"
      using old_lt new_ge s1f(4) by fastforce
  qed
  have lt2: "\<forall>m \<in> set pool2. mi_id m < engine_next s2"
  proof
    fix m assume "m \<in> set pool2"
    then consider "m \<in> set (material_instances s)" | "m \<in> set news" by (auto simp: pool2_def)
    then show "mi_id m < engine_next s2"
    proof cases
      case 1
      with old_lt s1f(4) show ?thesis by (fastforce simp: s2_def)
    next
      case 2
      then have "mi_id m \<in> set (map mi_id news)" by simp
      with new_lt have "mi_id m < engine_next s1 + length news" by blast
      then show ?thesis by (simp add: s2_def)
    qed
  qed
  \<comment> \<open>the scissor rectangles\<close>
  have fits: "0 + length ko \<le> length (material_instances s2)"
    using ko(3) len2 by (simp add: pool2)
  from push_scissors_spec [OF fits] obtain pool' where
    p: "push_scissors ko 0 s2 =
         Some (s2\<lparr>material_instances := pool'\<rparr>,
               zip ko (map mi_id (take (length ko) (drop 0 (material_instances s2)))))"
       "map mi_id pool' = map mi_id (material_instances s2)"
       "\<forall>j < length ko. scissor (pool' ! (0 + j)) = Some (key_fields (ko ! j))"
    by blast
  define ids where "ids = map mi_id (take u pool2)"
  define rects where "rects = zip ko ids"
  define assign where "assign = (\<lambda>k. the (map_of rects k))"
  have rects: "zip ko (map mi_id (take (length ko) (drop 0 (material_instances s2)))) = rects"
    by (simp add: rects_def ids_def ko(3) pool2)
  have len_ids: "length ids = length ko"
    using len2 ko(3) by (simp add: ids_def)
  have d_ids: "distinct ids"
    using dist2 by (simp add: ids_def take_map [symmetric] distinct_take)
  note az = assign_zip [OF ko(1) d_ids len_ids]
  have inj: "inj_on assign (set keys)"
    using az(2) by (simp add: assign_def rects_def ko(2))
  have len': "length pool' = length pool2"
    using p(2) by (metis length_map pool2)
  have served: "\<forall>k \<in> set keys. \<exists>j < length (remdups keys).
        mi_id (pool' ! j) = assign k \<and> scissor (pool' ! j) = Some (key_fields k)"
  proof
    fix k assume "k \<in> set keys"
    with ko(2) have "k \<in> set ko" by simp
    then obtain j where j: "j < length ko" "ko ! j = k"
      by (auto simp: in_set_conv_nth)
    from az(1) j have a: "assign k = ids ! j" by (auto simp: assign_def rects_def)
    have ju: "j < u" using j(1) ko(3) by simp
    then have jl: "j < length pool2" using len2 by simp
    have "mi_id (pool' ! j) = map mi_id pool' ! j" using jl len' by simp
    also have "\<dots> = map mi_id pool2 ! j" using p(2) by (simp add: pool2)
    also have "\<dots> = ids ! j" using ju jl by (simp add: ids_def)
    finally have "mi_id (pool' ! j) = assign k" using a by simp
    moreover from p(3) j have "scissor (pool' ! j) = Some (key_fields k)" by auto
    ultimately show "\<exists>j < length (remdups keys).
        mi_id (pool' ! j) = assign k \<and> scissor (pool' ! j) = Some (key_fields k)"
      using ju by (auto simp: u_def)
  qed
  \<comment> \<open>the primitives\<close>
  define s4 where "s4 = s2\<lparr>material_instances := pool', renderable := None\<rparr>"
  have slots4: "\<forall>i < length cmdLists.
             (\<exists>vb. buffer_at (vertex_buffers s4) (0 + i) = Some vb) \<and>
             (\<exists>ib. buffer_at (index_buffers s4) (0 + i) = Some ib)"
  proof (intro allI impI)
    fix i assume i: "i < length cmdLists"
    then have "i < length (vertex_buffers s1)" "i < length (index_buffers s1)"
      using s1(3,4) by simp_all
    with s1(5,6) show "(\<exists>vb. buffer_at (vertex_buffers s4) (0 + i) = Some vb) \<and>
             (\<exists>ib. buffer_at (index_buffers s4) (0 + i) = Some ib)"
      by (simp add: s4_def s2_def buffer_at_Some)
  qed
  have keys4: "\<forall>cmds \<in> set cmdLists. \<forall>pcmd \<in> set (CmdBuffer cmds).
           map_of rects (makeScissorKey pf fbheight (ClipRect pcmd)) \<noteq> None"
  proof (intro ballI)
    fix cmds pcmd assume "cmds \<in> set cmdLists" "pcmd \<in> set (CmdBuffer cmds)"
    then have "makeScissorKey pf fbheight (ClipRect pcmd) \<in> set keys"
      unfolding keys_def set_frame_keys by blast
    then have "makeScissorKey pf fbheight (ClipRect pcmd) \<in> set ko" by (simp add: ko(2))
    with len_ids show "map_of rects (makeScissorKey pf fbheight (ClipRect pcmd)) \<noteq> None"
      unfolding rects_def by (simp add: map_of_zip_is_Some [symmetric])
  qed
  have room4: "length ([] :: Primitive list) +
      length (concat (map (\<lambda>cmds. drawn (CmdBuffer cmds)) cmdLists)) \<le> n"
    using drawn_le [of cmdLists] by (simp add: n_def)
  from emit_lists_spec [OF slots4 keys4 room4] obtain s' ps where
    e: "emit_lists pf fbheight rects cmdLists 0 (s4, entries_of n [], length ([] :: Primitive list)) =
          Some (s', entries_of n ([] @ ps), length ([] :: Primitive list) + length ps)"
       "map (\<lambda>p. (prim_offset p, prim_count p)) ps =
          concat (map (\<lambda>cmds. index_ranges (CmdBuffer cmds)) cmdLists)"
       "map prim_material ps =
          map (\<lambda>pcmd. the (map_of rects (makeScissorKey pf fbheight (ClipRect pcmd))))
              (concat (map (\<lambda>cmds. drawn (CmdBuffer cmds)) cmdLists))"
       "map prim_blendOrder ps = [length ([] :: Primitive list) ..<
          length ([] :: Primitive list) + length ps]"
       "buf_step pf s4 s'" "slots_filled 0 cmdLists s4 s'"
    by blast
  have s'f: "material s' = material s4" "material_instances s' = material_instances s4"
      "renderable s' = renderable s4" "engine_next s4 \<le> engine_next s'"
      "\<forall>c0 n0. sync_ok pf c0 n0 s4 \<longrightarrow> sync_ok pf c0 n0 s'"
    using e(5) by (simp_all add: buf_step_def)
  note d = slots_filledD [OF e(6)]
  define fin where "fin = (if length cmdLists > 0 then s'\<lparr>renderable := Some (entries_of n ps)\<rparr> else s')"
  have emit: "emit_lists pf fbheight rects cmdLists 0 (s4, replicate n None, 0) =
      Some (s', entries_of n ps, length ps)"
    using e(1) by (simp add: entries_of_def)
  have run: "render_frame pf fbheight cmdLists s = Some fin"
    unfolding render_frame_def Let_def
    using s1(1) news(1) p(1) emit
    unfolding keys_def [symmetric] n_def [symmetric] u_def [symmetric] ko_def [symmetric]
      s2_def [symmetric] rects
    by (simp add: s4_def fin_def)
  \<comment> \<open>the resulting bridge\<close>
  have fin_fields: "material fin = material s'" "material_instances fin = material_instances s'"
      "vertex_buffers fin = vertex_buffers s'" "index_buffers fin = index_buffers s'"
      "engine_next fin = engine_next s'" "has_synced fin = has_synced s'"
      "fence_waits fin = fence_waits s'" "buffer_creations fin = buffer_creations s'"
    by (simp_all add: fin_def)
  have fin_r: "renderable fin = (if cmdLists = [] then None else Some (entries_of n ps))"
    using s'f(3) by (simp add: fin_def s4_def)
  have fin_mat: "material fin = material s"
    using s'f(1) s1f(1) by (simp add: fin_fields s4_def s2_def)
  have fin_pool: "material_instances fin = pool'"
    using s'f(2) by (simp add: fin_fields s4_def)
  have len_ps: "length ps = length all_drawn"
    using e(3) unfolding all_drawn_def by (metis length_map)
  have ps_le: "length ps \<le> n"
    using len_ps drawn_le [of cmdLists] by (simp add: all_drawn_def n_def)
  have mats: "map prim_material ps =
      map (\<lambda>pcmd. assign (makeScissorKey pf fbheight (ClipRect pcmd))) all_drawn"
    using e(3) by (simp add: assign_def all_drawn_def)
  have blend: "map prim_blendOrder ps = [0 ..< length ps]"
    using e(4) by simp
  have fin_len_pool: "length (material_instances fin) =
      max (length (material_instances s)) (length (remdups keys))"
    using len' len2 by (simp add: fin_pool u_def)
  have fin_ids: "map mi_id (take (length (material_instances s)) (material_instances fin)) =
      map mi_id (material_instances s)"
  proof -
    have "map mi_id (take (length (material_instances s)) pool') =
          take (length (material_instances s)) (map mi_id pool')" by (simp add: take_map)
    also have "\<dots> = take (length (material_instances s)) (map mi_id pool2)"
      using p(2) by (simp add: pool2)
    also have "\<dots> = map mi_id (material_instances s)" by (simp add: pool2_def)
    finally show ?thesis by (simp add: fin_pool)
  qed
  have fin_lenv: "length (vertex_buffers fin) = max (length cmdLists) (length (vertex_buffers s))"
    using d(1) s1(3) by (simp add: fin_fields s4_def s2_def)
  have fin_leni: "length (index_buffers fin) = max (length cmdLists) (length (index_buffers s))"
    using d(2) s1(4) by (simp add: fin_fields s4_def s2_def)
  have cap4: "\<And>i. vertex_capacity s4 i = vertex_capacity s1 i"
      "\<And>i. index_capacity s4 i = index_capacity s1 i"
    by (simp_all add: s4_def s2_def vertex_capacity_def index_capacity_def)
  have capf: "\<And>i. vertex_capacity fin i = vertex_capacity s' i"
      "\<And>i. index_capacity fin i = index_capacity s' i"
    by (simp_all add: fin_def)
  have fin_capv: "\<forall>i. vertex_capacity fin i =
       (if i < length cmdLists
        then max (if i < length (vertex_buffers s) then vertex_capacity s i else 1000)
                 (VtxBuffer_Size (cmdLists ! i))
        else vertex_capacity s i)"
  proof
    fix i
    show "vertex_capacity fin i =
       (if i < length cmdLists
        then max (if i < length (vertex_buffers s) then vertex_capacity s i else 1000)
                 (VtxBuffer_Size (cmdLists ! i))
        else vertex_capacity s i)"
    proof (cases "i < length cmdLists")
      case True
      then have "vertex_capacity s' i = max (vertex_capacity s4 i) (VtxBuffer_Size (cmdLists ! (i - 0)))"
        by (intro d(3)) simp_all
      with True s1(7) show ?thesis by (simp add: capf cap4)
    next
      case False
      then have "\<not> (0 \<le> i \<and> i < 0 + length cmdLists)" by simp
      from d(5) [OF this] d(1) have "vertex_capacity s' i = vertex_capacity s4 i"
        by (rule capacity_eq(1) [rotated])
      with False s1(7) show ?thesis by (simp add: capf cap4)
    qed
  qed
  have fin_capi: "\<forall>i. index_capacity fin i =
       (if i < length cmdLists
        then max (if i < length (index_buffers s) then index_capacity s i else 5000)
                 (IdxBuffer_Size (cmdLists ! i))
        else index_capacity s i)"
  proof
    fix i
    show "index_capacity fin i =
       (if i < length cmdLists
        then max (if i < length (index_buffers s) then index_capacity s i else 5000)
                 (IdxBuffer_Size (cmdLists ! i))
        else index_capacity s i)"
    proof (cases "i < length cmdLists")
      case True
      then have "index_capacity s' i = max (index_capacity s4 i) (IdxBuffer_Size (cmdLists ! (i - 0)))"
        by (intro d(4)) simp_all
      with True s1(8) show ?thesis by (simp add: capf cap4)
    next
      case False
      then have "\<not> (0 \<le> i \<and> i < 0 + length cmdLists)" by simp
      from d(6) [OF this] d(2) have "index_capacity s' i = index_capacity s4 i"
        by (rule capacity_eq(2) [rotated])
      with False s1(8) show ?thesis by (simp add: capf cap4)
    qed
  qed
  have fin_sync: "\<forall>c0 n0. sync_ok pf c0 n0 s \<longrightarrow> sync_ok pf c0 n0 fin"
  proof (intro allI impI)
    fix c0 n0 assume "sync_ok pf c0 n0 s"
    with s1f(5) have "sync_ok pf c0 n0 s1" by blast
    then have "sync_ok pf c0 n0 s4"
      by (rule sync_ok_same)
         (simp_all add: s4_def s2_def fence_waits_def buffer_creations_def filter_map comp_def)
    with s'f(5) have "sync_ok pf c0 n0 s'" by blast
    then show "sync_ok pf c0 n0 fin"
      by (rule sync_ok_same) (simp_all add: fin_fields)
  qed
  have fin_slots: "slots_ok fin"
    unfolding slots_ok_def
  proof (intro conjI notI)
    assume "None \<in> set (vertex_buffers fin)"
    then obtain i where i: "i < length (vertex_buffers s')" "vertex_buffers s' ! i = None"
      by (auto simp: in_set_conv_nth fin_fields)
    from i(1) d(1) have "i < length (vertex_buffers s1)" by (simp add: s4_def s2_def)
    with s1(5) have "vertex_buffers s4 ! i \<noteq> None" by (auto simp: s4_def s2_def)
    from d(7) [OF this] i(2) show False by simp
  next
    assume "None \<in> set (index_buffers fin)"
    then obtain i where i: "i < length (index_buffers s')" "index_buffers s' ! i = None"
      by (auto simp: in_set_conv_nth fin_fields)
    from i(1) d(2) have "i < length (index_buffers s1)" by (simp add: s4_def s2_def)
    with s1(6) have "index_buffers s4 ! i \<noteq> None" by (auto simp: s4_def s2_def)
    from d(8) [OF this] i(2) show False by simp
  qed
  have fin_pool_ok: "pool_ok fin"
    unfolding pool_ok_def list_all_iff
  proof (intro conjI ballI)
    show "distinct (map mi_id (material_instances fin))"
      using dist2 p(2) by (simp add: fin_pool pool2)
  next
    fix m assume "m \<in> set (material_instances fin)"
    then have "mi_id m \<in> set (map mi_id pool')" by (simp add: fin_pool)
    then have "mi_id m \<in> set (map mi_id pool2)" using p(2) by (simp add: pool2)
    then obtain m' where "m' \<in> set pool2" "mi_id m' = mi_id m" by auto
    with lt2 have "mi_id m < engine_next s2" by auto
    also have "\<dots> \<le> engine_next s'" using s'f(4) by (simp add: s4_def)
    finally show "mi_id m < engine_next fin" by (simp add: fin_fields)
  qed
  have fin_ok: "bridge_ok fin"
    using fin_mat mat fin_slots fin_pool_ok by (simp add: bridge_ok_def)
  have served_fin: "\<forall>k \<in> set keys. \<exists>j < length (remdups keys).
        mi_id (material_instances fin ! j) = assign k \<and>
        scissor (material_instances fin ! j) = Some (key_fields k)"
    using served by (simp add: fin_pool)
  show ?thesis
    apply (intro exI [of _ fin] exI [of _ ps] exI [of _ assign] conjI)
                     apply (rule run)
                    apply (rule fin_ok)
                   apply (rule fin_mat)
                  apply (rule fin_r)
                 apply (rule len_ps)
                apply (rule ps_le)
               apply (rule e(2))
              apply (rule blend)
             apply (rule mats)
            apply (rule inj)
           apply (rule served_fin)
          apply (rule fin_len_pool)
         apply (rule fin_ids)
        apply (rule fin_lenv)
       apply (rule fin_leni)
      apply (rule fin_capv)
     apply (rule fin_capi)
    apply (rule fin_sync)
    done
qed

subsection \<open>\<^verbatim>\<open>update\<close> and sequences of frames\<close>

lemma update_skipped:
  "zero_area pf io \<Longrightarrow> update pf io imguiData s = Some (s\<lparr>has_synced := False\<rparr>)"
  by (auto simp: update_def zero_area_def Let_def split: prod.splits)

lemma update_drawn:
  "\<not> zero_area pf io \<Longrightarrow>
   update pf io imguiData s =
     render_frame pf (snd (fb_size pf io)) (scaled_lists pf io imguiData) (s\<lparr>has_synced := False\<rparr>)"
  by (auto simp: update_def zero_area_def scaled_lists_def Let_def split: prod.splits)

lemma bridge_ok_flag [simp]: "bridge_ok (s\<lparr>has_synced := h\<rparr>) = bridge_ok s"
  by (simp add: bridge_ok_def slots_ok_def pool_ok_def)

lemma bridge_ok_new: "bridge_ok (new_bridge m)"
  by (simp add: bridge_ok_def slots_ok_def pool_ok_def new_bridge_def)

text \<open>Scaling the clip rectangles changes nothing but the clip rectangles.\<close>

lemma scaled_lists_length [simp]:
  "length (scaled_lists pf io imguiData) = length (CmdLists imguiData)"
  by (simp add: scaled_lists_def ScaleClipRects_def)

lemma scaled_lists_nth:
  "i < length (CmdLists imguiData) \<Longrightarrow>
   VtxBuffer_Size (scaled_lists pf io imguiData ! i) = VtxBuffer_Size (CmdLists imguiData ! i) \<and>
   IdxBuffer_Size (scaled_lists pf io imguiData ! i) = IdxBuffer_Size (CmdLists imguiData ! i)"
  by (simp add: scaled_lists_def ScaleClipRects_def)

lemma scaled_lists_empty [simp]:
  "scaled_lists pf io imguiData = [] \<longleftrightarrow> CmdLists imguiData = []"
  by (simp add: scaled_lists_def ScaleClipRects_def)

lemma index_ranges_cong:
  assumes "map ElemCount cmds' = map ElemCount cmds"
    and "map UserCallback cmds' = map UserCallback cmds"
  shows "index_ranges cmds' = index_ranges cmds"
proof -
  have len: "length cmds' = length cmds" using assms(1) by (metis length_map)
  have e: "\<And>j. j < length cmds \<Longrightarrow> ElemCount (cmds' ! j) = ElemCount (cmds ! j)"
    using assms(1) len by (metis nth_map)
  have u: "\<And>j. j < length cmds \<Longrightarrow> UserCallback (cmds' ! j) = UserCallback (cmds ! j)"
    using assms(2) len by (metis nth_map)
  have t: "\<And>j. map ElemCount (take j cmds') = map ElemCount (take j cmds)"
    using assms(1) by (simp add: take_map [symmetric])
  have f: "filter (\<lambda>j. \<not> UserCallback (cmds' ! j)) [0 ..< length cmds] =
           filter (\<lambda>j. \<not> UserCallback (cmds ! j)) [0 ..< length cmds]"
    by (rule filter_cong) (simp_all add: u)
  show ?thesis
    unfolding index_ranges_def len f
    by (rule map_cong) (simp_all add: e t)
qed

lemma scaled_lists_ranges:
  "map (\<lambda>cmds. index_ranges (CmdBuffer cmds)) (scaled_lists pf io imguiData) =
   map (\<lambda>cmds. index_ranges (CmdBuffer cmds)) (CmdLists imguiData)"
  by (simp add: scaled_lists_def ScaleClipRects_def comp_def scale_clip_def
      index_ranges_cong [where cmds' = "map (scale_clip pf sc) cmds" for sc cmds])

lemma scaled_lists_counts:
  "map (\<lambda>cmds. length (CmdBuffer cmds)) (scaled_lists pf io imguiData) =
   map (\<lambda>cmds. length (CmdBuffer cmds)) (CmdLists imguiData)"
  by (simp add: scaled_lists_def ScaleClipRects_def comp_def)

lemma scaled_lists_drawn:
  "length (concat (map (\<lambda>cmds. drawn (CmdBuffer cmds)) (scaled_lists pf io imguiData))) =
   length (concat (map (\<lambda>cmds. drawn (CmdBuffer cmds)) (CmdLists imguiData)))"
proof -
  have "\<And>cmds. length (drawn (map (scale_clip pf (DisplayFramebufferScale io)) cmds)) =
      length (drawn cmds)"
    by (simp add: drawn_def filter_map comp_def scale_clip_def)
  then show ?thesis
    by (simp add: scaled_lists_def ScaleClipRects_def comp_def length_concat)
qed

text \<open>The Renderable that \<^verbatim>\<open>update\<close> finds plays no part in the call.\<close>

lemma for_each_commute:
  assumes "\<And>x s. body x (g s) = map_option g (body x s)"
  shows "for_each xs body (g s) = map_option g (for_each xs body s)"
proof (induction xs arbitrary: s)
  case Nil
  show ?case by simp
next
  case (Cons x xs)
  show ?case
    by (cases "body x s") (simp_all add: assms Cons.IH)
qed

lemma createVertexBuffer_renderable:
  "createVertexBuffer pf i c (s\<lparr>renderable := r\<rparr>) =
   map_option (\<lambda>t. t\<lparr>renderable := r\<rparr>) (createVertexBuffer pf i c s)"
  by (cases s) (simp add: createVertexBuffer_def syncThreads_def Let_def split: option.splits)

lemma createIndexBuffer_renderable:
  "createIndexBuffer pf i c (s\<lparr>renderable := r\<rparr>) =
   map_option (\<lambda>t. t\<lparr>renderable := r\<rparr>) (createIndexBuffer pf i c s)"
  by (cases s) (simp add: createIndexBuffer_def syncThreads_def Let_def split: option.splits)

lemma createBuffers_renderable:
  "createBuffers pf n (s\<lparr>renderable := r\<rparr>) =
   map_option (\<lambda>t. t\<lparr>renderable := r\<rparr>) (createBuffers pf n s)"
proof -
  have v: "\<And>xs t. for_each xs (\<lambda>i. createVertexBuffer pf i 1000) (t\<lparr>renderable := r\<rparr>) =
      map_option (\<lambda>t. t\<lparr>renderable := r\<rparr>) (for_each xs (\<lambda>i. createVertexBuffer pf i 1000) t)"
    by (rule for_each_commute) (rule createVertexBuffer_renderable)
  have i: "\<And>xs t. for_each xs (\<lambda>i. createIndexBuffer pf i 5000) (t\<lparr>renderable := r\<rparr>) =
      map_option (\<lambda>t. t\<lparr>renderable := r\<rparr>) (for_each xs (\<lambda>i. createIndexBuffer pf i 5000) t)"
    by (rule for_each_commute) (rule createIndexBuffer_renderable)
  have sw: "\<And>t f. (t\<lparr>renderable := r\<rparr>)\<lparr>vertex_buffers := f\<rparr> =
      (t\<lparr>vertex_buffers := f\<rparr>)\<lparr>renderable := r\<rparr>"
    "\<And>t f. (t\<lparr>renderable := r\<rparr>)\<lparr>index_buffers := f\<rparr> =
      (t\<lparr>index_buffers := f\<rparr>)\<lparr>renderable := r\<rparr>"
    by simp_all
  define s0 where "s0 = s\<lparr>vertex_buffers :=
      vertex_buffers s @ replicate (n - length (vertex_buffers s)) None\<rparr>"
  define first where "first =
    (if n > length (vertex_buffers s)
     then for_each [length (vertex_buffers s) ..< length (vertex_buffers s0)]
            (\<lambda>i. createVertexBuffer pf i 1000) s0
     else Some s)"
  define second where "second = (\<lambda>s2.
    if n > length (index_buffers s2)
    then for_each [length (index_buffers s2) ..<
             length (index_buffers (s2\<lparr>index_buffers :=
               index_buffers s2 @ replicate (n - length (index_buffers s2)) None\<rparr>))]
           (\<lambda>i. createIndexBuffer pf i 5000)
           (s2\<lparr>index_buffers :=
               index_buffers s2 @ replicate (n - length (index_buffers s2)) None\<rparr>)
    else Some s2)"
  have plain: "createBuffers pf n s = (case first of None \<Rightarrow> None | Some s2 \<Rightarrow> second s2)"
    unfolding createBuffers_def first_def second_def s0_def Let_def by (rule refl)
  have first_r: "(if n > length (vertex_buffers (s\<lparr>renderable := r\<rparr>))
     then for_each [length (vertex_buffers (s\<lparr>renderable := r\<rparr>)) ..<
              length (vertex_buffers ((s\<lparr>renderable := r\<rparr>)\<lparr>vertex_buffers :=
                vertex_buffers (s\<lparr>renderable := r\<rparr>) @
                replicate (n - length (vertex_buffers (s\<lparr>renderable := r\<rparr>))) None\<rparr>))]
            (\<lambda>i. createVertexBuffer pf i 1000)
            ((s\<lparr>renderable := r\<rparr>)\<lparr>vertex_buffers :=
                vertex_buffers (s\<lparr>renderable := r\<rparr>) @
                replicate (n - length (vertex_buffers (s\<lparr>renderable := r\<rparr>))) None\<rparr>)
     else Some (s\<lparr>renderable := r\<rparr>)) = map_option (\<lambda>t. t\<lparr>renderable := r\<rparr>) first"
    unfolding first_def s0_def sw by (simp add: v)
  have second_r: "\<And>s2. second (s2\<lparr>renderable := r\<rparr>) =
      map_option (\<lambda>t. t\<lparr>renderable := r\<rparr>) (second s2)"
    unfolding second_def sw by (simp add: i)
  have "createBuffers pf n (s\<lparr>renderable := r\<rparr>) =
      (case map_option (\<lambda>t. t\<lparr>renderable := r\<rparr>) first of
         None \<Rightarrow> None | Some s2 \<Rightarrow> second s2)"
    unfolding createBuffers_def Let_def first_r [symmetric] second_def by (rule refl)
  also have "\<dots> = map_option (\<lambda>t. t\<lparr>renderable := r\<rparr>) (createBuffers pf n s)"
    unfolding plain by (cases first) (simp_all add: second_r)
  finally show ?thesis .
qed

lemma create_instances_renderable:
  "create_instances n (s\<lparr>renderable := r\<rparr>) =
   map_option (\<lambda>t. t\<lparr>renderable := r\<rparr>) (create_instances n s)"
proof (induction n arbitrary: s)
  case 0
  show ?case by simp
next
  case (Suc n)
  show ?case
  proof (cases "material s")
    case None
    then show ?thesis by simp
  next
    case (Some m)
    have "create_instances (Suc n) (s\<lparr>renderable := r\<rparr>) =
        create_instances n
          ((s\<lparr>material_instances :=
                 material_instances s @ [\<lparr>mi_id = engine_next s, scissor = None\<rparr>],
               engine_next := Suc (engine_next s),
               engine_log := Ev_CreateMI (engine_next s) # engine_log s\<rparr>)\<lparr>renderable := r\<rparr>)"
      using Some by (cases s) simp
    also note Suc.IH
    finally show ?thesis using Some by simp
  qed
qed

lemma ensure_material_instances_renderable:
  "ensure_material_instances u (s\<lparr>renderable := r\<rparr>) =
   map_option (\<lambda>t. t\<lparr>renderable := r\<rparr>) (ensure_material_instances u s)"
  by (simp add: ensure_material_instances_def create_instances_renderable)

lemma push_scissors_renderable:
  "push_scissors keys i (s\<lparr>renderable := r\<rparr>) =
   map_option (\<lambda>(t, m). (t\<lparr>renderable := r\<rparr>, m)) (push_scissors keys i s)"
proof (induction keys arbitrary: i s)
  case Nil
  show ?case by simp
next
  case (Cons key keys)
  show ?case
  proof (cases "vec_at (material_instances s) i")
    case None
    then show ?thesis by simp
  next
    case (Some mi)
    define s1 where "s1 = s\<lparr>material_instances :=
        (material_instances s)[i := mi\<lparr>scissor := Some (key_fields key)\<rparr>]\<rparr>"
    have "push_scissors (key # keys) i (s\<lparr>renderable := r\<rparr>) =
        (case push_scissors keys (Suc i) (s1\<lparr>renderable := r\<rparr>) of
           None \<Rightarrow> None
         | Some (s', rects) \<Rightarrow> Some (s', (key, mi_id mi) # rects))"
      using Some by (cases s) (simp add: s1_def)
    also have "\<dots> = map_option (\<lambda>(t, m). (t\<lparr>renderable := r\<rparr>, m))
        (case push_scissors keys (Suc i) s1 of
           None \<Rightarrow> None
         | Some (s', rects) \<Rightarrow> Some (s', (key, mi_id mi) # rects))"
      by (simp add: Cons.IH split: option.splits)
    also have "(case push_scissors keys (Suc i) s1 of
           None \<Rightarrow> None
         | Some (s', rects) \<Rightarrow> Some (s', (key, mi_id mi) # rects)) =
        push_scissors (key # keys) i s"
      using Some by (simp add: s1_def)
    finally show ?thesis .
  qed
qed

lemma render_frame_renderable:
  "render_frame pf fbheight cmdLists (s\<lparr>renderable := r\<rparr>) = render_frame pf fbheight cmdLists s"
proof (cases "createBuffers pf (length cmdLists) s")
  case None
  then show ?thesis
    by (simp add: render_frame_def createBuffers_renderable)
next
  case s1: (Some s1)
  define u where "u = length (remdups (frame_keys pf fbheight cmdLists))"
  show ?thesis
  proof (cases "ensure_material_instances u s1")
    case None
    with s1 show ?thesis
      by (simp add: render_frame_def createBuffers_renderable
          ensure_material_instances_renderable u_def)
  next
    case s2: (Some s2)
    show ?thesis
    proof (cases "push_scissors (key_order pf (frame_keys pf fbheight cmdLists)) 0 s2")
      case None
      with s1 s2 show ?thesis
        by (simp add: render_frame_def createBuffers_renderable
            ensure_material_instances_renderable push_scissors_renderable u_def)
    next
      case (Some res)
      obtain s3 rects where res: "res = (s3, rects)" by (cases res)
      with s1 s2 Some show ?thesis
        by (simp add: render_frame_def createBuffers_renderable
            ensure_material_instances_renderable push_scissors_renderable u_def)
    qed
  qed
qed

lemma update_renderable:
  "update pf io imguiData (s\<lparr>renderable := r\<rparr>) =
   (if zero_area pf io then Some (s\<lparr>renderable := r, has_synced := False\<rparr>)
    else update pf io imguiData s)"
proof (cases "zero_area pf io")
  case True
  then show ?thesis by (simp add: update_skipped)
next
  case False
  have "(s\<lparr>renderable := r\<rparr>)\<lparr>has_synced := False\<rparr> = (s\<lparr>has_synced := False\<rparr>)\<lparr>renderable := r\<rparr>"
    by simp
  with False show ?thesis
    by (simp only: update_drawn [OF False] render_frame_renderable if_False)
qed

lemma updates_append:
  "updates pf (xs @ ys) s =
     (case updates pf xs s of None \<Rightarrow> None | Some s' \<Rightarrow> updates pf ys s')"
  by (induction xs arbitrary: s) (auto split: option.splits)

lemma emitted_entries:
  "map the (filter (\<lambda>e. e \<noteq> None) (entries_of n ps)) = ps"
  by (simp add: entries_of_def filter_map comp_def)

section \<open>The bridge: the example frame\<close>

lemmas bridge_eval =
  update_def fb_size_def to_int_def ScaleClipRects_def scale_clip_def render_frame_def
  createBuffers_def createVertexBuffer_def createIndexBuffer_def syncThreads_def vec_at_def
  buffer_at_def frame_keys_def makeScissorKey_def to_uint16_def ensure_material_instances_def
  key_fields_def populateVertexData_def populate_vertices_def populate_indices_def
  sizeof_ImDrawVert_def sizeof_ImDrawIdx_def new_bridge_def

lemma ex_platform_ok: "platform_ok ex_pf"
  by (simp add: platform_ok_def ex_pf_def)

lemma ex_not_zero: "\<not> zero_area ex_pf ex_io"
  by (simp add: zero_area_def fb_size_def to_int_def ex_pf_def ex_io_def)

lemma ex_zero: "zero_area ex_pf ex_io_minimized"
  by (simp add: zero_area_def fb_size_def to_int_def ex_pf_def ex_io_minimized_def)

lemma ex_update: "update ex_pf ex_io ex_data (new_bridge 0) = Some ex_state"
  by (simp add: bridge_eval ex_pf_def ex_io_def ex_data_def ex_state_def)

lemma ex_frame_cmds:
  "frame_cmds ex_pf ex_io ex_data =
     [\<lparr>ElemCount = 6, ClipRect = ImVec4 0 0 800 600, UserCallback = False\<rparr>,
      \<lparr>ElemCount = 12, ClipRect = ImVec4 10 10 100 100, UserCallback = True\<rparr>,
      \<lparr>ElemCount = 3, ClipRect = ImVec4 0 0 800 600, UserCallback = False\<rparr>,
      \<lparr>ElemCount = 9, ClipRect = ImVec4 20 20 100 100, UserCallback = False\<rparr>]"
  by (simp add: frame_cmds_def scaled_lists_def ScaleClipRects_def scale_clip_def
      ex_pf_def ex_io_def ex_data_def)

lemma ex_keys:
  "map (cmd_key ex_pf ex_io) (frame_cmds ex_pf ex_io ex_data) =
     [168888422000230400, 25333134483783690, 168888422000230400, 22518341767004180]"
  unfolding ex_frame_cmds
  by (simp add: cmd_key_def fb_size_def to_int_def makeScissorKey_def
      to_uint16_def ex_pf_def ex_io_def)

lemma ex_emitted:
  "emitted ex_state =
     [\<lparr>prim_vertices = 8, prim_indices = 3, prim_offset = 0, prim_count = 6,
       prim_blendOrder = 0, prim_material = 6\<rparr>,
      \<lparr>prim_vertices = 8, prim_indices = 3, prim_offset = 18, prim_count = 3,
       prim_blendOrder = 1, prim_material = 6\<rparr>,
      \<lparr>prim_vertices = 2, prim_indices = 4, prim_offset = 0, prim_count = 9,
       prim_blendOrder = 2, prim_material = 7\<rparr>]"
  by (simp add: emitted_def primitives_def ex_state_def)

section \<open>The bridge: properties of \<^verbatim>\<open>update\<close>\<close>

lemma capacity_absent:
  "length (vertex_buffers s) \<le> i \<Longrightarrow> vertex_capacity s i = 0"
  "length (index_buffers s) \<le> i \<Longrightarrow> index_capacity s i = 0"
  by (simp_all add: vertex_capacity_def index_capacity_def buffer_at_def vec_at_def)

lemma never_less_refl: "never_less s s"
  by (simp add: never_less_def)

lemma never_less_trans: "never_less s s1 \<Longrightarrow> never_less s1 s2 \<Longrightarrow> never_less s s2"
  unfolding never_less_def by (meson order_trans)

lemma frame_keys_cmds:
  "frame_keys pf (snd (fb_size pf io)) (scaled_lists pf io imguiData) =
   map (cmd_key pf io) (frame_cmds pf io imguiData)"
  by (simp add: frame_keys_def frame_cmds_def map_concat comp_def cmd_key_def [abs_def])

lemma drawn_frame_cmds:
  "concat (map (\<lambda>cmds. drawn (CmdBuffer cmds)) (scaled_lists pf io imguiData)) =
   drawn (frame_cmds pf io imguiData)"
  by (simp add: frame_cmds_def drawn_def filter_concat comp_def)

text \<open>What a call of \<^verbatim>\<open>update\<close> on a frame that is drawn establishes, in the terms of the
  frame: a restatement of \<open>render_frame_spec\<close>.\<close>

lemma update_spec:
  assumes pok: "platform_ok pf" and bok: "bridge_ok s" and nz: "\<not> zero_area pf io"
  shows "\<exists>s' assign.
    update pf io imguiData s = Some s' \<and> bridge_ok s' \<and>
    primitives s' =
      (if CmdLists imguiData = [] then []
       else entries_of (sum_list (map (\<lambda>cmds. length (CmdBuffer cmds)) (CmdLists imguiData)))
              (emitted s')) \<and>
    length (emitted s') = length (drawn (frame_cmds pf io imguiData)) \<and>
    length (emitted s') \<le> sum_list (map (\<lambda>cmds. length (CmdBuffer cmds)) (CmdLists imguiData)) \<and>
    map (\<lambda>p. (prim_offset p, prim_count p)) (emitted s') =
      concat (map (\<lambda>cmds. index_ranges (CmdBuffer cmds)) (CmdLists imguiData)) \<and>
    map prim_blendOrder (emitted s') = [0 ..< length (emitted s')] \<and>
    map prim_material (emitted s') =
      map (\<lambda>pcmd. assign (cmd_key pf io pcmd)) (drawn (frame_cmds pf io imguiData)) \<and>
    inj_on assign (cmd_key pf io ` set (frame_cmds pf io imguiData)) \<and>
    (\<forall>k \<in> cmd_key pf io ` set (frame_cmds pf io imguiData).
        \<exists>m \<in> set (material_instances s'). mi_id m = assign k \<and> scissor m = Some (key_fields k)) \<and>
    length (material_instances s') =
      max (length (material_instances s))
          (card (cmd_key pf io ` set (frame_cmds pf io imguiData))) \<and>
    map mi_id (take (length (material_instances s)) (material_instances s')) =
      map mi_id (material_instances s) \<and>
    length (vertex_buffers s') = max (length (CmdLists imguiData)) (length (vertex_buffers s)) \<and>
    length (index_buffers s') = max (length (CmdLists imguiData)) (length (index_buffers s)) \<and>
    (\<forall>i. vertex_capacity s' i =
       (if i < length (CmdLists imguiData)
        then max (if i < length (vertex_buffers s) then vertex_capacity s i else 1000)
                 (VtxBuffer_Size (CmdLists imguiData ! i))
        else vertex_capacity s i)) \<and>
    (\<forall>i. index_capacity s' i =
       (if i < length (CmdLists imguiData)
        then max (if i < length (index_buffers s) then index_capacity s i else 5000)
                 (IdxBuffer_Size (CmdLists imguiData ! i))
        else index_capacity s i)) \<and>
    fence_waits s' =
      fence_waits s + (if has_threading pf \<and> buffer_creations s < buffer_creations s' then 1 else 0)"
proof -
  define s0 where "s0 = s\<lparr>has_synced := False\<rparr>"
  define cl where "cl = scaled_lists pf io imguiData"
  define fbh where "fbh = snd (fb_size pf io)"
  define n where "n = sum_list (map (\<lambda>cmds. length (CmdBuffer cmds)) (CmdLists imguiData))"
  have ok0: "bridge_ok s0" using bok by (simp add: s0_def)
  have keys: "frame_keys pf fbh cl = map (cmd_key pf io) (frame_cmds pf io imguiData)"
    by (simp add: fbh_def cl_def frame_keys_cmds)
  have dr: "concat (map (\<lambda>cmds. drawn (CmdBuffer cmds)) cl) = drawn (frame_cmds pf io imguiData)"
    by (simp add: cl_def drawn_frame_cmds)
  have n: "sum_list (map (\<lambda>cmds. length (CmdBuffer cmds)) cl) = n"
    by (simp add: cl_def n_def scaled_lists_counts)
  have rg: "concat (map (\<lambda>cmds. index_ranges (CmdBuffer cmds)) cl) =
      concat (map (\<lambda>cmds. index_ranges (CmdBuffer cmds)) (CmdLists imguiData))"
    by (simp add: cl_def scaled_lists_ranges)
  have len: "length cl = length (CmdLists imguiData)" by (simp add: cl_def)
  have emp: "cl = [] \<longleftrightarrow> CmdLists imguiData = []" by (simp add: cl_def)
  from render_frame_spec [OF pok ok0, where fbheight = fbh and cmdLists = cl]
  obtain s' ps assign where
    r: "render_frame pf fbh cl s0 = Some s'" "bridge_ok s'"
      "renderable s' = (if cl = [] then None else Some (entries_of n ps))"
      "length ps = length (drawn (frame_cmds pf io imguiData))"
      "length ps \<le> n"
      "map (\<lambda>p. (prim_offset p, prim_count p)) ps =
         concat (map (\<lambda>cmds. index_ranges (CmdBuffer cmds)) (CmdLists imguiData))"
      "map prim_blendOrder ps = [0 ..< length ps]"
      "map prim_material ps =
         map (\<lambda>pcmd. assign (makeScissorKey pf fbh (ClipRect pcmd))) (drawn (frame_cmds pf io imguiData))"
      "inj_on assign (set (map (cmd_key pf io) (frame_cmds pf io imguiData)))"
      "\<forall>k \<in> set (map (cmd_key pf io) (frame_cmds pf io imguiData)).
         \<exists>j < length (remdups (map (cmd_key pf io) (frame_cmds pf io imguiData))).
           mi_id (material_instances s' ! j) = assign k \<and>
           scissor (material_instances s' ! j) = Some (key_fields k)"
      "length (material_instances s') =
         max (length (material_instances s0))
             (length (remdups (map (cmd_key pf io) (frame_cmds pf io imguiData))))"
      "map mi_id (take (length (material_instances s0)) (material_instances s')) =
         map mi_id (material_instances s0)"
      "length (vertex_buffers s') = max (length cl) (length (vertex_buffers s0))"
      "length (index_buffers s') = max (length cl) (length (index_buffers s0))"
      "\<forall>i. vertex_capacity s' i =
         (if i < length cl
          then max (if i < length (vertex_buffers s0) then vertex_capacity s0 i else 1000)
                   (VtxBuffer_Size (cl ! i))
          else vertex_capacity s0 i)"
      "\<forall>i. index_capacity s' i =
         (if i < length cl
          then max (if i < length (index_buffers s0) then index_capacity s0 i else 5000)
                   (IdxBuffer_Size (cl ! i))
          else index_capacity s0 i)"
      "\<forall>c0 n0. sync_ok pf c0 n0 s0 \<longrightarrow> sync_ok pf c0 n0 s'"
    unfolding keys dr n rg by blast
  have run: "update pf io imguiData s = Some s'"
    using r(1) by (simp add: update_drawn [OF nz] s0_def cl_def fbh_def)
  have ps_nil: "CmdLists imguiData = [] \<Longrightarrow> ps = []"
  proof -
    assume "CmdLists imguiData = []"
    then have "scaled_lists pf io imguiData = []" by simp
    with r(4) show "ps = []" by (simp add: frame_cmds_def drawn_def)
  qed
  have em: "emitted s' = ps"
    using r(3) ps_nil by (cases "CmdLists imguiData = []")
      (simp_all add: emitted_def primitives_def emp emitted_entries del: not_None_eq)
  have prims: "primitives s' =
      (if CmdLists imguiData = [] then [] else entries_of n (emitted s'))"
    using r(3) by (simp add: primitives_def emp em)
  have mats: "map prim_material (emitted s') =
      map (\<lambda>pcmd. assign (cmd_key pf io pcmd)) (drawn (frame_cmds pf io imguiData))"
    using r(8) by (simp add: em cmd_key_def fbh_def)
  have served: "\<forall>k \<in> cmd_key pf io ` set (frame_cmds pf io imguiData).
        \<exists>m \<in> set (material_instances s'). mi_id m = assign k \<and> scissor m = Some (key_fields k)"
  proof
    fix k assume "k \<in> cmd_key pf io ` set (frame_cmds pf io imguiData)"
    then have "k \<in> set (map (cmd_key pf io) (frame_cmds pf io imguiData))" by simp
    with r(10) obtain j where
      j: "j < length (remdups (map (cmd_key pf io) (frame_cmds pf io imguiData)))"
        "mi_id (material_instances s' ! j) = assign k"
        "scissor (material_instances s' ! j) = Some (key_fields k)"
      by blast
    from j(1) r(11) have "j < length (material_instances s')" by simp
    then have "material_instances s' ! j \<in> set (material_instances s')" by simp
    with j(2,3) show "\<exists>m \<in> set (material_instances s').
        mi_id m = assign k \<and> scissor m = Some (key_fields k)" by blast
  qed
  have card: "length (remdups (map (cmd_key pf io) (frame_cmds pf io imguiData))) =
      card (cmd_key pf io ` set (frame_cmds pf io imguiData))"
    by (simp add: length_remdups_card_conv)
  have capv: "\<forall>i. vertex_capacity s' i =
       (if i < length (CmdLists imguiData)
        then max (if i < length (vertex_buffers s) then vertex_capacity s i else 1000)
                 (VtxBuffer_Size (CmdLists imguiData ! i))
        else vertex_capacity s i)"
  proof
    fix i
    from r(15) have "vertex_capacity s' i =
         (if i < length cl
          then max (if i < length (vertex_buffers s0) then vertex_capacity s0 i else 1000)
                   (VtxBuffer_Size (cl ! i))
          else vertex_capacity s0 i)" by blast
    then show "vertex_capacity s' i =
       (if i < length (CmdLists imguiData)
        then max (if i < length (vertex_buffers s) then vertex_capacity s i else 1000)
                 (VtxBuffer_Size (CmdLists imguiData ! i))
        else vertex_capacity s i)"
      using scaled_lists_nth [of i imguiData pf io] by (simp add: len s0_def cl_def)
  qed
  have capi: "\<forall>i. index_capacity s' i =
       (if i < length (CmdLists imguiData)
        then max (if i < length (index_buffers s) then index_capacity s i else 5000)
                 (IdxBuffer_Size (CmdLists imguiData ! i))
        else index_capacity s i)"
  proof
    fix i
    from r(16) have "index_capacity s' i =
         (if i < length cl
          then max (if i < length (index_buffers s0) then index_capacity s0 i else 5000)
                   (IdxBuffer_Size (cl ! i))
          else index_capacity s0 i)" by blast
    then show "index_capacity s' i =
       (if i < length (CmdLists imguiData)
        then max (if i < length (index_buffers s) then index_capacity s i else 5000)
                 (IdxBuffer_Size (CmdLists imguiData ! i))
        else index_capacity s i)"
      using scaled_lists_nth [of i imguiData pf io] by (simp add: len s0_def cl_def)
  qed
  have "sync_ok pf (buffer_creations s) (fence_waits s) s0"
    by (simp add: sync_ok_def s0_def)
  with r(17) have "sync_ok pf (buffer_creations s) (fence_waits s) s'" by blast
  then have fences: "fence_waits s' =
      fence_waits s + (if has_threading pf \<and> buffer_creations s < buffer_creations s' then 1 else 0)"
    by (simp add: sync_ok_def)
  show ?thesis
    apply (intro exI [of _ s'] exI [of _ assign] conjI)
                    apply (rule run)
                   apply (rule r(2))
                  apply (rule prims [unfolded n_def])
                 apply (simp add: em r(4))
                apply (simp add: em r(5) [unfolded n_def])
               apply (simp add: em r(6))
              apply (simp add: em r(7))
             apply (rule mats)
            apply (rule r(9) [unfolded set_map])
           apply (rule served)
          apply (simp add: r(11) card s0_def)
         apply (rule r(12) [unfolded s0_def, simplified])
        apply (simp add: r(13) len s0_def)
       apply (simp add: r(14) len s0_def)
      apply (rule capv)
     apply (rule capi)
    apply (rule fences)
    done
qed

subsection \<open>Capacities and pools over a sequence of frames\<close>

lemma requested_skipped:
  "zero_area pf io \<Longrightarrow> requested_vertices pf (io, imguiData) i = None"
  "zero_area pf io \<Longrightarrow> requested_indices pf (io, imguiData) i = None"
  by (simp_all add: requested_vertices_def requested_indices_def)

lemma requested_drawn:
  "\<not> zero_area pf io \<Longrightarrow>
   requested_vertices pf (io, imguiData) i =
     (if i < length (CmdLists imguiData) then Some (VtxBuffer_Size (CmdLists imguiData ! i)) else None)"
  "\<not> zero_area pf io \<Longrightarrow>
   requested_indices pf (io, imguiData) i =
     (if i < length (CmdLists imguiData) then Some (IdxBuffer_Size (CmdLists imguiData ! i)) else None)"
  by (simp_all add: requested_vertices_def requested_indices_def vertices_div indices_div)

text \<open>One call of \<^verbatim>\<open>update\<close>, whether the frame is drawn or skipped.\<close>

lemma update_step:
  assumes pok: "platform_ok pf" and bok: "bridge_ok s"
  shows "\<exists>s'. update pf io imguiData s = Some s' \<and> bridge_ok s' \<and> never_less s s' \<and>
    (\<forall>i r. requested_vertices pf (io, imguiData) i = Some r \<longrightarrow> r \<le> vertex_capacity s' i) \<and>
    (\<forall>i r. requested_indices pf (io, imguiData) i = Some r \<longrightarrow> r \<le> index_capacity s' i) \<and>
    (\<forall>i. i < length (vertex_buffers s) \<and> vertex_capacity s' i \<noteq> vertex_capacity s i \<longrightarrow>
       (\<exists>r. requested_vertices pf (io, imguiData) i = Some r \<and> vertex_capacity s i < r \<and>
            vertex_capacity s' i = r)) \<and>
    (\<forall>i. i < length (index_buffers s) \<and> index_capacity s' i \<noteq> index_capacity s i \<longrightarrow>
       (\<exists>r. requested_indices pf (io, imguiData) i = Some r \<and> index_capacity s i < r \<and>
            index_capacity s' i = r))"
proof (cases "zero_area pf io")
  case True
  have "update pf io imguiData s = Some (s\<lparr>has_synced := False\<rparr>)"
    by (rule update_skipped [OF True])
  moreover have "bridge_ok (s\<lparr>has_synced := False\<rparr>)" using bok by simp
  moreover have "never_less s (s\<lparr>has_synced := False\<rparr>)" by (simp add: never_less_def)
  ultimately show ?thesis by (simp add: requested_skipped [OF True])
next
  case False
  from update_spec [OF pok bok False, of imguiData] obtain s' where
    s': "update pf io imguiData s = Some s'" "bridge_ok s'"
      "length (material_instances s') =
         max (length (material_instances s))
             (card (cmd_key pf io ` set (frame_cmds pf io imguiData)))"
      "length (vertex_buffers s') = max (length (CmdLists imguiData)) (length (vertex_buffers s))"
      "length (index_buffers s') = max (length (CmdLists imguiData)) (length (index_buffers s))"
      "\<forall>i. vertex_capacity s' i =
       (if i < length (CmdLists imguiData)
        then max (if i < length (vertex_buffers s) then vertex_capacity s i else 1000)
                 (VtxBuffer_Size (CmdLists imguiData ! i))
        else vertex_capacity s i)"
      "\<forall>i. index_capacity s' i =
       (if i < length (CmdLists imguiData)
        then max (if i < length (index_buffers s) then index_capacity s i else 5000)
                 (IdxBuffer_Size (CmdLists imguiData ! i))
        else index_capacity s i)"
    by blast
  have capv: "\<And>i. vertex_capacity s' i =
       (if i < length (CmdLists imguiData)
        then max (if i < length (vertex_buffers s) then vertex_capacity s i else 1000)
                 (VtxBuffer_Size (CmdLists imguiData ! i))
        else vertex_capacity s i)" using s'(6) by blast
  have capi: "\<And>i. index_capacity s' i =
       (if i < length (CmdLists imguiData)
        then max (if i < length (index_buffers s) then index_capacity s i else 5000)
                 (IdxBuffer_Size (CmdLists imguiData ! i))
        else index_capacity s i)" using s'(7) by blast
  have mv: "\<And>i. vertex_capacity s i \<le> vertex_capacity s' i"
  proof -
    fix i show "vertex_capacity s i \<le> vertex_capacity s' i"
      using capacity_absent(1) [of s i] by (cases "i < length (vertex_buffers s)") (simp_all add: capv)
  qed
  have mi: "\<And>i. index_capacity s i \<le> index_capacity s' i"
  proof -
    fix i show "index_capacity s i \<le> index_capacity s' i"
      using capacity_absent(2) [of s i] by (cases "i < length (index_buffers s)") (simp_all add: capi)
  qed
  have nl: "never_less s s'"
    using s'(3,4,5) mv mi by (simp add: never_less_def)
  have rv: "\<forall>i r. requested_vertices pf (io, imguiData) i = Some r \<longrightarrow> r \<le> vertex_capacity s' i"
    by (simp add: requested_drawn [OF False] capv)
  have ri: "\<forall>i r. requested_indices pf (io, imguiData) i = Some r \<longrightarrow> r \<le> index_capacity s' i"
    by (simp add: requested_drawn [OF False] capi)
  have cv: "\<forall>i. i < length (vertex_buffers s) \<and> vertex_capacity s' i \<noteq> vertex_capacity s i \<longrightarrow>
       (\<exists>r. requested_vertices pf (io, imguiData) i = Some r \<and> vertex_capacity s i < r \<and>
            vertex_capacity s' i = r)"
    by (auto simp: requested_drawn [OF False] capv max_def split: if_splits)
  have ci: "\<forall>i. i < length (index_buffers s) \<and> index_capacity s' i \<noteq> index_capacity s i \<longrightarrow>
       (\<exists>r. requested_indices pf (io, imguiData) i = Some r \<and> index_capacity s i < r \<and>
            index_capacity s' i = r)"
    by (auto simp: requested_drawn [OF False] capi max_def split: if_splits)
  from s'(1,2) nl rv ri cv ci show ?thesis by blast
qed

text \<open>Any number of calls.\<close>

lemma updates_steps:
  assumes pok: "platform_ok pf"
  shows "bridge_ok s \<Longrightarrow>
    \<exists>s'. updates pf frames s = Some s' \<and> bridge_ok s' \<and> never_less s s' \<and>
      (\<forall>fr \<in> set frames. \<forall>i r. requested_vertices pf fr i = Some r \<longrightarrow> r \<le> vertex_capacity s' i) \<and>
      (\<forall>fr \<in> set frames. \<forall>i r. requested_indices pf fr i = Some r \<longrightarrow> r \<le> index_capacity s' i)"
proof (induction frames arbitrary: s)
  case Nil
  then show ?case by (simp add: never_less_refl)
next
  case (Cons fr frames)
  obtain io imguiData where fr: "fr = (io, imguiData)" by (cases fr)
  from update_step [OF pok Cons.prems, of io imguiData] obtain s1 where
    s1: "update pf io imguiData s = Some s1" "bridge_ok s1" "never_less s s1"
      "\<forall>i r. requested_vertices pf (io, imguiData) i = Some r \<longrightarrow> r \<le> vertex_capacity s1 i"
      "\<forall>i r. requested_indices pf (io, imguiData) i = Some r \<longrightarrow> r \<le> index_capacity s1 i"
    by blast
  from Cons.IH [OF s1(2)] obtain s' where
    s': "updates pf frames s1 = Some s'" "bridge_ok s'" "never_less s1 s'"
      "\<forall>fr \<in> set frames. \<forall>i r. requested_vertices pf fr i = Some r \<longrightarrow> r \<le> vertex_capacity s' i"
      "\<forall>fr \<in> set frames. \<forall>i r. requested_indices pf fr i = Some r \<longrightarrow> r \<le> index_capacity s' i"
    by blast
  have run: "updates pf (fr # frames) s = Some s'" using s1(1) s'(1) by (simp add: fr)
  have nl: "never_less s s'" using s1(3) s'(3) by (rule never_less_trans)
  have upv: "\<And>i. vertex_capacity s1 i \<le> vertex_capacity s' i"
    and upi: "\<And>i. index_capacity s1 i \<le> index_capacity s' i"
    using s'(3) by (simp_all add: never_less_def)
  have hv: "\<forall>i r. requested_vertices pf fr i = Some r \<longrightarrow> r \<le> vertex_capacity s' i"
  proof (intro allI impI)
    fix i r assume "requested_vertices pf fr i = Some r"
    with s1(4) have "r \<le> vertex_capacity s1 i" by (simp add: fr)
    with upv [of i] show "r \<le> vertex_capacity s' i" by simp
  qed
  have hi: "\<forall>i r. requested_indices pf fr i = Some r \<longrightarrow> r \<le> index_capacity s' i"
  proof (intro allI impI)
    fix i r assume "requested_indices pf fr i = Some r"
    with s1(5) have "r \<le> index_capacity s1 i" by (simp add: fr)
    with upi [of i] show "r \<le> index_capacity s' i" by simp
  qed
  from run s'(2) nl hv hi s'(4,5) show ?case by simp
qed

subsection \<open>The layout of the key\<close>

lemma and_ffff: "(x :: 64 word) AND 65535 = take_bit 16 x"
proof -
  have "(65535 :: 64 word) = mask 16" by (simp add: mask_eq_exp_minus_1)
  then show ?thesis by (simp add: take_bit_eq_mask)
qed

lemma makeScissorKey_pack:
  "makeScissorKey pf fbheight clipRect = pack_key (scissor_tuple pf fbheight clipRect)"
  by (simp add: makeScissorKey_def scissor_tuple_def Let_def)

lemma pack_key_low:
  fixes a b c d :: "16 word"
  shows "(ucast (drop_bit 0 (pack_key (a, b, c, d))) :: 16 word) = a"
    and "(ucast (drop_bit 16 (pack_key (a, b, c, d))) :: 16 word) = b"
    and "(ucast (drop_bit 32 (pack_key (a, b, c, d))) :: 16 word) = c"
    and "(ucast (drop_bit 48 (pack_key (a, b, c, d))) :: 16 word) = d"
  unfolding pack_key.simps
     apply (rule bit_word_eqI, simp add: bit_simps, auto dest: bit_imp_le_length)
    apply (rule bit_word_eqI, simp add: bit_simps, auto dest: bit_imp_le_length)
   apply (rule bit_word_eqI, simp add: bit_simps, auto dest: bit_imp_le_length)
  apply (rule bit_word_eqI, simp add: bit_simps, auto dest: bit_imp_le_length)
  done

lemma pack_key_inj: "pack_key t = pack_key u \<Longrightarrow> t = u"
proof -
  assume eq: "pack_key t = pack_key u"
  obtain a b c d where t: "t = (a, b, c, d)" by (cases t)
  obtain a' b' c' d' where u: "u = (a', b', c', d')" by (cases u)
  from eq have e: "pack_key (a, b, c, d) = pack_key (a', b', c', d')" by (simp only: t u)
  have "(ucast (drop_bit 0 (pack_key (a, b, c, d))) :: 16 word) =
        ucast (drop_bit 0 (pack_key (a', b', c', d')))" by (simp only: e)
  then have 0: "a = a'" by (simp only: pack_key_low)
  have "(ucast (drop_bit 16 (pack_key (a, b, c, d))) :: 16 word) =
        ucast (drop_bit 16 (pack_key (a', b', c', d')))" by (simp only: e)
  then have 1: "b = b'" by (simp only: pack_key_low)
  have "(ucast (drop_bit 32 (pack_key (a, b, c, d))) :: 16 word) =
        ucast (drop_bit 32 (pack_key (a', b', c', d')))" by (simp only: e)
  then have 2: "c = c'" by (simp only: pack_key_low)
  have "(ucast (drop_bit 48 (pack_key (a, b, c, d))) :: 16 word) =
        ucast (drop_bit 48 (pack_key (a', b', c', d')))" by (simp only: e)
  then have 3: "d = d'" by (simp only: pack_key_low)
  show "t = u" by (simp only: t u 0 1 2 3)
qed

lemma key_fields_pack:
  fixes a b c d :: "16 word"
  shows "key_fields (pack_key (a, b, c, d)) = (ucast a, ucast b, ucast c, ucast d)"
proof -
  have 0: "(ucast (drop_bit 0 (pack_key (a, b, c, d)) AND 65535) :: 32 word) = ucast a"
    unfolding pack_key.simps
    apply (simp only: and_ffff)
    apply (rule bit_word_eqI)
    apply (simp add: bit_simps)
    apply (auto dest: bit_imp_le_length)
    done
  have 1: "(ucast (drop_bit 16 (pack_key (a, b, c, d)) AND 65535) :: 32 word) = ucast b"
    unfolding pack_key.simps
    apply (simp only: and_ffff)
    apply (rule bit_word_eqI)
    apply (simp add: bit_simps)
    apply (auto dest: bit_imp_le_length)
    done
  have 2: "(ucast (drop_bit 32 (pack_key (a, b, c, d)) AND 65535) :: 32 word) = ucast c"
    unfolding pack_key.simps
    apply (simp only: and_ffff)
    apply (rule bit_word_eqI)
    apply (simp add: bit_simps)
    apply (auto dest: bit_imp_le_length)
    done
  have 3: "(ucast (drop_bit 48 (pack_key (a, b, c, d)) AND 65535) :: 32 word) = ucast d"
    unfolding pack_key.simps
    apply (simp only: and_ffff)
    apply (rule bit_word_eqI)
    apply (simp add: bit_simps)
    apply (auto dest: bit_imp_le_length)
    done
  show ?thesis unfolding key_fields_def by (simp only: 0 1 2 3)
qed

lemma to_uint16_in_range:
  "representable_u16 pf v \<Longrightarrow> to_uint16 pf v = clamped pf v"
  by (auto simp: representable_u16_def to_uint16_def clamped_def clamp_u16_def
      split: option.splits)

lemma key_in_range:
  "rect_in_range pf fbheight clipRect \<Longrightarrow>
   makeScissorKey pf fbheight clipRect = clamped_key pf fbheight clipRect"
  by (simp add: rect_in_range_def makeScissorKey_pack scissor_tuple_def clamped_key_def
      to_uint16_in_range)

subsection \<open>What the engine is asked to do when a slot is filled\<close>

lemma populate_vertices_log:
  assumes "buffer_at (vertex_buffers s) i = Some vb0"
  shows "\<exists>s' vb evs. populate_vertices pf i bytes s = Some s' \<and>
     buffer_at (vertex_buffers s') i = Some vb \<and> engine_log s' = evs @ engine_log s \<and>
     index_buffers s' = index_buffers s \<and>
     (vertexCount vb0 < bytes div sizeof_ImDrawVert \<longrightarrow>
        vertexCount vb = bytes div sizeof_ImDrawVert \<and> vb_id vb = engine_next s \<and>
        Ev_DestroyVB (vb_id vb0) \<in> set evs \<and>
        Ev_CreateVB (vb_id vb) (bytes div sizeof_ImDrawVert) \<in> set evs) \<and>
     (bytes div sizeof_ImDrawVert \<le> vertexCount vb0 \<longrightarrow>
        vb = vb0 \<and> vertex_buffers s' = vertex_buffers s \<and>
        evs = [Ev_UploadVB (vb_id vb0) (bytes div sizeof_ImDrawVert * sizeof_ImDrawVert)])"
proof -
  define r where "r = bytes div sizeof_ImDrawVert"
  from assms have i: "i < length (vertex_buffers s)" "vertex_buffers s ! i = Some vb0"
    by (simp_all add: buffer_at_Some)
  show ?thesis
  proof (cases "r > vertexCount vb0")
    case True
    define vb where "vb = \<lparr>vb_id = engine_next s, vertexCount = r\<rparr>"
    define s0 where "s0 = syncThreads pf s"
    have s0: "vertex_buffers s0 = vertex_buffers s" "engine_next s0 = engine_next s"
        "index_buffers s0 = index_buffers s"
        "\<exists>e0. engine_log s0 = e0 @ engine_log s"
      by (simp_all add: s0_def syncThreads_def)
    then obtain e0 where e0: "engine_log s0 = e0 @ engine_log s" by blast
    define s1 where "s1 = s0\<lparr>vertex_buffers := (vertex_buffers s0)[i := Some vb],
        engine_next := Suc (engine_next s0),
        engine_log := Ev_CreateVB (engine_next s0) r # [Ev_DestroyVB (vb_id vb0)] @ engine_log s0\<rparr>"
    have c: "createVertexBuffer pf i r s = Some s1"
      using i s0(1,2)
      by (simp add: createVertexBuffer_def Let_def s0_def [symmetric] vec_at_def s1_def vb_def)
    have at: "buffer_at (vertex_buffers s1) i = Some vb"
      using i(1) s0(1) by (simp add: s1_def buffer_at_update)
    define s' where "s' = s1\<lparr>engine_log := Ev_UploadVB (vb_id vb) (r * sizeof_ImDrawVert) # engine_log s1\<rparr>"
    have run: "populate_vertices pf i bytes s = Some s'"
      using assms True c at by (simp add: populate_vertices_def Let_def r_def [symmetric] s'_def)
    have at': "buffer_at (vertex_buffers s') i = Some vb" using at by (simp add: s'_def)
    have log: "engine_log s' =
        ([Ev_UploadVB (vb_id vb) (r * sizeof_ImDrawVert), Ev_CreateVB (engine_next s) r,
          Ev_DestroyVB (vb_id vb0)] @ e0) @ engine_log s"
      by (simp add: s'_def s1_def e0 s0(2))
    have ib: "index_buffers s' = index_buffers s" by (simp add: s'_def s1_def s0(3))
    have vbf: "vertexCount vb = r" "vb_id vb = engine_next s" by (simp_all add: vb_def)
    show ?thesis
      apply (rule exI [of _ s'], rule exI [of _ vb])
      apply (rule exI [of _ "[Ev_UploadVB (vb_id vb) (r * sizeof_ImDrawVert),
          Ev_CreateVB (engine_next s) r, Ev_DestroyVB (vb_id vb0)] @ e0"])
      using run at' log ib vbf True by (simp add: r_def [symmetric])
  next
    case False
    define s' where "s' = s\<lparr>engine_log := Ev_UploadVB (vb_id vb0) (r * sizeof_ImDrawVert) # engine_log s\<rparr>"
    have run: "populate_vertices pf i bytes s = Some s'"
      using assms False by (simp add: populate_vertices_def Let_def r_def [symmetric] s'_def)
    show ?thesis
      apply (rule exI [of _ s'], rule exI [of _ vb0])
      apply (rule exI [of _ "[Ev_UploadVB (vb_id vb0) (r * sizeof_ImDrawVert)]"])
      using run assms False by (simp add: r_def [symmetric] s'_def)
  qed
qed

lemma populate_indices_log:
  assumes "buffer_at (index_buffers s) i = Some ib0"
  shows "\<exists>s' ib evs. populate_indices pf i bytes s = Some s' \<and>
     buffer_at (index_buffers s') i = Some ib \<and> engine_log s' = evs @ engine_log s \<and>
     vertex_buffers s' = vertex_buffers s \<and>
     (indexCount ib0 < bytes div 2 \<longrightarrow>
        indexCount ib = bytes div 2 \<and> ib_id ib = engine_next s \<and>
        Ev_DestroyIB (ib_id ib0) \<in> set evs \<and>
        Ev_CreateIB (ib_id ib) (bytes div 2) \<in> set evs) \<and>
     (bytes div 2 \<le> indexCount ib0 \<longrightarrow>
        ib = ib0 \<and> index_buffers s' = index_buffers s \<and>
        evs = [Ev_UploadIB (ib_id ib0) (bytes div 2 * 2)])"
proof -
  define r where "r = bytes div 2"
  from assms have i: "i < length (index_buffers s)" "index_buffers s ! i = Some ib0"
    by (simp_all add: buffer_at_Some)
  show ?thesis
  proof (cases "r > indexCount ib0")
    case True
    define ib where "ib = \<lparr>ib_id = engine_next s, indexCount = r\<rparr>"
    define s0 where "s0 = syncThreads pf s"
    have s0: "index_buffers s0 = index_buffers s" "engine_next s0 = engine_next s"
        "vertex_buffers s0 = vertex_buffers s"
        "\<exists>e0. engine_log s0 = e0 @ engine_log s"
      by (simp_all add: s0_def syncThreads_def)
    then obtain e0 where e0: "engine_log s0 = e0 @ engine_log s" by blast
    define s1 where "s1 = s0\<lparr>index_buffers := (index_buffers s0)[i := Some ib],
        engine_next := Suc (engine_next s0),
        engine_log := Ev_CreateIB (engine_next s0) r # [Ev_DestroyIB (ib_id ib0)] @ engine_log s0\<rparr>"
    have c: "createIndexBuffer pf i r s = Some s1"
      using i s0(1,2)
      by (simp add: createIndexBuffer_def Let_def s0_def [symmetric] vec_at_def s1_def ib_def)
    have at: "buffer_at (index_buffers s1) i = Some ib"
      using i(1) s0(1) by (simp add: s1_def buffer_at_update)
    define s' where "s' = s1\<lparr>engine_log := Ev_UploadIB (ib_id ib) (r * 2) # engine_log s1\<rparr>"
    have run: "populate_indices pf i bytes s = Some s'"
      using assms True c at by (simp add: populate_indices_def Let_def r_def [symmetric] s'_def)
    have at': "buffer_at (index_buffers s') i = Some ib" using at by (simp add: s'_def)
    have log: "engine_log s' =
        ([Ev_UploadIB (ib_id ib) (r * 2), Ev_CreateIB (engine_next s) r,
          Ev_DestroyIB (ib_id ib0)] @ e0) @ engine_log s"
      by (simp add: s'_def s1_def e0 s0(2))
    have vb: "vertex_buffers s' = vertex_buffers s" by (simp add: s'_def s1_def s0(3))
    have ibf: "indexCount ib = r" "ib_id ib = engine_next s" by (simp_all add: ib_def)
    show ?thesis
      apply (rule exI [of _ s'], rule exI [of _ ib])
      apply (rule exI [of _ "[Ev_UploadIB (ib_id ib) (r * 2),
          Ev_CreateIB (engine_next s) r, Ev_DestroyIB (ib_id ib0)] @ e0"])
      using run at' log vb ibf True by (simp add: r_def [symmetric])
  next
    case False
    define s' where "s' = s\<lparr>engine_log := Ev_UploadIB (ib_id ib0) (r * 2) # engine_log s\<rparr>"
    have run: "populate_indices pf i bytes s = Some s'"
      using assms False by (simp add: populate_indices_def Let_def r_def [symmetric] s'_def)
    show ?thesis
      apply (rule exI [of _ s'], rule exI [of _ ib0])
      apply (rule exI [of _ "[Ev_UploadIB (ib_id ib0) (r * 2)]"])
      using run assms False by (simp add: r_def [symmetric] s'_def)
  qed
qed

section \<open>The bridge: the properties claimed of it\<close>

lemma drawn_count:
  "length (drawn (frame_cmds pf io imguiData)) =
   sum_list (map (\<lambda>cmds. length (drawn (CmdBuffer cmds))) (CmdLists imguiData))"
proof -
  have "length (drawn (frame_cmds pf io imguiData)) =
      length (concat (map (\<lambda>cmds. drawn (CmdBuffer cmds)) (CmdLists imguiData)))"
    by (simp only: drawn_frame_cmds [symmetric] scaled_lists_drawn)
  then show ?thesis by (simp add: length_concat comp_def)
qed

lemma drawn_all:
  assumes "\<forall>cmds \<in> set cmdLists. \<forall>pcmd \<in> set (CmdBuffer cmds). \<not> UserCallback pcmd"
  shows "sum_list (map (\<lambda>cmds. length (drawn (CmdBuffer cmds))) cmdLists) =
         sum_list (map (\<lambda>cmds. length (CmdBuffer cmds)) cmdLists)"
  using assms by (induction cmdLists) (simp_all add: drawn_def)

lemma drawn_sum_le:
  "sum_list (map (\<lambda>cmds. length (drawn (CmdBuffer cmds))) cmdLists) \<le>
   sum_list (map (\<lambda>cmds. length (CmdBuffer cmds)) cmdLists)"
  by (induction cmdLists) (auto simp: drawn_def intro: add_le_mono)

lemma drawn_some_callback:
  assumes "cmds \<in> set cmdLists" and "pcmd \<in> set (CmdBuffer cmds)" and "UserCallback pcmd"
  shows "sum_list (map (\<lambda>cmds. length (drawn (CmdBuffer cmds))) cmdLists) <
         sum_list (map (\<lambda>cmds. length (CmdBuffer cmds)) cmdLists)"
  using assms(1)
proof (induction cmdLists)
  case Nil
  then show ?case by simp
next
  case (Cons a rest)
  show ?case
  proof (cases "cmds = a")
    case True
    from assms(2,3) have "length (drawn (CmdBuffer a)) < length (CmdBuffer a)"
      unfolding drawn_def True [symmetric] by (intro length_filter_less [of pcmd]) simp_all
    with drawn_sum_le [of rest] show ?thesis by simp
  next
    case False
    with Cons.prems have "cmds \<in> set rest" by simp
    from Cons.IH [OF this]
    have "sum_list (map (\<lambda>cmds. length (drawn (CmdBuffer cmds))) rest) <
          sum_list (map (\<lambda>cmds. length (CmdBuffer cmds)) rest)" .
    moreover have "length (drawn (CmdBuffer a)) \<le> length (CmdBuffer a)" by (simp add: drawn_def)
    ultimately show ?thesis by simp
  qed
qed

text \<open>C1. For a frame with nonzero framebuffer area, called on a bridge in a regular state,
  \<^verbatim>\<open>update\<close> returns. The Renderable it leaves holds one primitive for every draw command
  without a user callback, in drawing order, and none for a command with a user callback:
  the number of its primitives is the sum over the draw lists of the numbers of their
  commands without a callback, which is the sum of the per-list command counts exactly
  when no command of the frame has a callback. The Renderable was built for that larger
  sum of entries; the primitives come first and the remaining entries are unset. The
  index ranges of the primitives are, list by list, \<open>index_ranges\<close> of the list: the
  offset of a command is the sum of the element counts of all the commands before it in
  the same list, so it starts at 0 in every list and never decreases within one. Nothing
  of an earlier frame remains: the result is the same whatever Renderable the bridge held
  before.\<close>

theorem frame_primitives_match_drawn_commands:
  assumes "platform_ok pf" and "bridge_ok s" and "\<not> zero_area pf io"
  shows "\<exists>s'. update pf io imguiData s = Some s' \<and>
    length (emitted s') =
      sum_list (map (\<lambda>cmds. length (drawn (CmdBuffer cmds))) (CmdLists imguiData)) \<and>
    ((length (emitted s') =
        sum_list (map (\<lambda>cmds. length (CmdBuffer cmds)) (CmdLists imguiData))) =
     (\<forall>cmds \<in> set (CmdLists imguiData). \<forall>pcmd \<in> set (CmdBuffer cmds). \<not> UserCallback pcmd)) \<and>
    length (primitives s') =
      sum_list (map (\<lambda>cmds. length (CmdBuffer cmds)) (CmdLists imguiData)) \<and>
    primitives s' =
      map Some (emitted s') @ replicate (length (primitives s') - length (emitted s')) None \<and>
    map (\<lambda>p. (prim_offset p, prim_count p)) (emitted s') =
      concat (map (\<lambda>cmds. index_ranges (CmdBuffer cmds)) (CmdLists imguiData)) \<and>
    (\<forall>r. update pf io imguiData (s\<lparr>renderable := r\<rparr>) = Some s')"
proof -
  define n where "n = sum_list (map (\<lambda>cmds. length (CmdBuffer cmds)) (CmdLists imguiData))"
  define k where "k = sum_list (map (\<lambda>cmds. length (drawn (CmdBuffer cmds))) (CmdLists imguiData))"
  from update_spec [OF assms, of imguiData] obtain s' where
    s': "update pf io imguiData s = Some s'"
      "primitives s' = (if CmdLists imguiData = [] then [] else entries_of n (emitted s'))"
      "length (emitted s') = length (drawn (frame_cmds pf io imguiData))"
      "length (emitted s') \<le> n"
      "map (\<lambda>p. (prim_offset p, prim_count p)) (emitted s') =
         concat (map (\<lambda>cmds. index_ranges (CmdBuffer cmds)) (CmdLists imguiData))"
    unfolding n_def by blast
  have cnt: "length (emitted s') = k" using s'(3) by (simp add: drawn_count k_def)
  have all: "(k = n) =
      (\<forall>cmds \<in> set (CmdLists imguiData). \<forall>pcmd \<in> set (CmdBuffer cmds). \<not> UserCallback pcmd)"
  proof
    assume "\<forall>cmds \<in> set (CmdLists imguiData). \<forall>pcmd \<in> set (CmdBuffer cmds). \<not> UserCallback pcmd"
    then show "k = n" unfolding k_def n_def by (rule drawn_all)
  next
    assume eq: "k = n"
    show "\<forall>cmds \<in> set (CmdLists imguiData). \<forall>pcmd \<in> set (CmdBuffer cmds). \<not> UserCallback pcmd"
    proof (rule ccontr)
      assume "\<not> (\<forall>cmds \<in> set (CmdLists imguiData). \<forall>pcmd \<in> set (CmdBuffer cmds). \<not> UserCallback pcmd)"
      then obtain cmds pcmd where c: "cmds \<in> set (CmdLists imguiData)"
        "pcmd \<in> set (CmdBuffer cmds)" "UserCallback pcmd" by blast
      then have "k < n" unfolding k_def n_def by (rule drawn_some_callback)
      with eq show False by simp
    qed
  qed
  have len: "length (primitives s') = n"
  proof (cases "CmdLists imguiData = []")
    case True
    then show ?thesis using s'(2) by (simp add: n_def)
  next
    case False
    then show ?thesis using s'(2,4) by (simp add: entries_of_def)
  qed
  have shape: "primitives s' =
      map Some (emitted s') @ replicate (length (primitives s') - length (emitted s')) None"
  proof (cases "CmdLists imguiData = []")
    case True
    then have "primitives s' = []" using s'(2) by simp
    then show ?thesis by (simp add: emitted_def)
  next
    case False
    then have "primitives s' = entries_of n (emitted s')" using s'(2) by simp
    then show ?thesis unfolding len by (simp add: entries_of_def)
  qed
  have fresh: "\<forall>r. update pf io imguiData (s\<lparr>renderable := r\<rparr>) = Some s'"
    using s'(1) assms(3) by (simp add: update_renderable)
  from all cnt have all': "(length (emitted s') = n) =
      (\<forall>cmds \<in> set (CmdLists imguiData). \<forall>pcmd \<in> set (CmdBuffer cmds). \<not> UserCallback pcmd)"
    by simp
  from s'(1) cnt [unfolded k_def] all' [unfolded n_def] len [unfolded n_def] shape s'(5) fresh
  show ?thesis by blast
qed

theorem frame_primitives_match_drawn_commands_witness:
  "platform_ok ex_pf \<and> bridge_ok (new_bridge 0) \<and> \<not> zero_area ex_pf ex_io \<and>
   update ex_pf ex_io ex_data (new_bridge 0) = Some ex_state \<and>
   sum_list (map (\<lambda>cmds. length (drawn (CmdBuffer cmds))) (CmdLists ex_data)) = 3 \<and>
   length (emitted ex_state) = 3 \<and>
   length (primitives ex_state) = 4 \<and>
   map (\<lambda>p. (prim_offset p, prim_count p)) (emitted ex_state) = [(0, 6), (18, 3), (0, 9)] \<and>
   concat (map (\<lambda>cmds. index_ranges (CmdBuffer cmds)) (CmdLists ex_data)) =
     [(0, 6), (18, 3), (0, 9)] \<and>
   update ex_pf ex_io ex_data (new_bridge 0\<lparr>renderable := renderable ex_state\<rparr>) = Some ex_state"
proof -
  from frame_primitives_match_drawn_commands [OF ex_platform_ok bridge_ok_new [of 0] ex_not_zero,
      where imguiData = ex_data]
  obtain s' where
    s': "update ex_pf ex_io ex_data (new_bridge 0) = Some s'"
      "length (emitted s') =
         sum_list (map (\<lambda>cmds. length (drawn (CmdBuffer cmds))) (CmdLists ex_data))"
      "length (primitives s') =
         sum_list (map (\<lambda>cmds. length (CmdBuffer cmds)) (CmdLists ex_data))"
      "map (\<lambda>p. (prim_offset p, prim_count p)) (emitted s') =
         concat (map (\<lambda>cmds. index_ranges (CmdBuffer cmds)) (CmdLists ex_data))"
      "\<forall>r. update ex_pf ex_io ex_data (new_bridge 0\<lparr>renderable := r\<rparr>) = Some s'"
    by blast
  from s'(1) have eq: "s' = ex_state" by (simp add: ex_update)
  have e: "length (emitted ex_state) = 3" by (simp add: ex_emitted)
  with s'(2) have k: "sum_list (map (\<lambda>cmds. length (drawn (CmdBuffer cmds))) (CmdLists ex_data)) = 3"
    by (simp add: eq)
  have "sum_list (map (\<lambda>cmds. length (CmdBuffer cmds)) (CmdLists ex_data)) = 4"
    by (simp add: ex_data_def)
  with s'(3) have n: "length (primitives ex_state) = 4" by (simp add: eq)
  have m: "map (\<lambda>p. (prim_offset p, prim_count p)) (emitted ex_state) = [(0, 6), (18, 3), (0, 9)]"
    by (simp add: ex_emitted)
  with s'(4) have r: "concat (map (\<lambda>cmds. index_ranges (CmdBuffer cmds)) (CmdLists ex_data)) =
      [(0, 6), (18, 3), (0, 9)]" by (simp add: eq)
  from s'(5) have f: "update ex_pf ex_io ex_data (new_bridge 0\<lparr>renderable := renderable ex_state\<rparr>) =
      Some ex_state" by (simp add: eq)
  from ex_platform_ok bridge_ok_new [of 0] ex_not_zero ex_update k e n m r f show ?thesis by blast
qed

text \<open>The example frame has four commands in its two draw lists, the second of the first
  list with a user callback: the Renderable is built for four entries, but only three
  of them hold a primitive, fewer than the sum of the per-list command counts.\<close>

theorem callback_command_emits_no_primitive:
  "update ex_pf ex_io ex_data (new_bridge 0) = Some ex_state \<and>
   sum_list (map (\<lambda>cmds. length (CmdBuffer cmds)) (CmdLists ex_data)) = 4 \<and>
   primitives ex_state =
     [Some \<lparr>prim_vertices = 8, prim_indices = 3, prim_offset = 0, prim_count = 6,
            prim_blendOrder = 0, prim_material = 6\<rparr>,
      Some \<lparr>prim_vertices = 8, prim_indices = 3, prim_offset = 18, prim_count = 3,
            prim_blendOrder = 1, prim_material = 6\<rparr>,
      Some \<lparr>prim_vertices = 2, prim_indices = 4, prim_offset = 0, prim_count = 9,
            prim_blendOrder = 2, prim_material = 7\<rparr>,
      None] \<and>
   length (emitted ex_state) = 3 \<and>
   length (emitted ex_state) \<noteq>
     sum_list (map (\<lambda>cmds. length (CmdBuffer cmds)) (CmdLists ex_data))"
proof -
  have n: "sum_list (map (\<lambda>cmds. length (CmdBuffer cmds)) (CmdLists ex_data)) = 4"
    by (simp add: ex_data_def)
  have p: "primitives ex_state =
     [Some \<lparr>prim_vertices = 8, prim_indices = 3, prim_offset = 0, prim_count = 6,
            prim_blendOrder = 0, prim_material = 6\<rparr>,
      Some \<lparr>prim_vertices = 8, prim_indices = 3, prim_offset = 18, prim_count = 3,
            prim_blendOrder = 1, prim_material = 6\<rparr>,
      Some \<lparr>prim_vertices = 2, prim_indices = 4, prim_offset = 0, prim_count = 9,
            prim_blendOrder = 2, prim_material = 7\<rparr>,
      None]"
    by (simp add: primitives_def ex_state_def)
  have e: "length (emitted ex_state) = 3" by (simp add: ex_emitted)
  from ex_update n p e show ?thesis by simp
qed

text \<open>C5. When the scaled framebuffer width or height is zero, \<^verbatim>\<open>update\<close> returns at once:
  the engine is asked nothing (its log, and so every buffer, material instance and fence,
  is as before), and the buffer slots, the pool and the Renderable are the ones of before
  the call. The bridge is not left wholly as it was, though: the flag \<^verbatim>\<open>has_synced_\<close> is
  reset before the test, so the state after the call is the state before with that flag
  false, and it is the state before exactly when the flag was false already.\<close>

theorem zero_area_update_only_resets_flag:
  assumes "zero_area pf io"
  shows "update pf io imguiData s = Some (s\<lparr>has_synced := False\<rparr>) \<and>
    (\<exists>s'. update pf io imguiData s = Some s' \<and>
       engine_log s' = engine_log s \<and> engine_next s' = engine_next s \<and>
       vertex_buffers s' = vertex_buffers s \<and> index_buffers s' = index_buffers s \<and>
       material_instances s' = material_instances s \<and> material s' = material s \<and>
       renderable s' = renderable s \<and> has_synced s' = False \<and>
       (s' = s) = (has_synced s = False))"
proof -
  have run: "update pf io imguiData s = Some (s\<lparr>has_synced := False\<rparr>)"
    by (rule update_skipped [OF assms])
  have "(s\<lparr>has_synced := False\<rparr> = s) = (has_synced s = False)"
    by (cases s) auto
  with run show ?thesis by simp
qed

theorem zero_area_update_only_resets_flag_witness:
  "zero_area ex_pf ex_io_minimized \<and>
   update ex_pf ex_io_minimized ex_data ex_state = Some (ex_state\<lparr>has_synced := False\<rparr>) \<and>
   update ex_pf ex_io_minimized ex_data (new_bridge 0) = Some (new_bridge 0)"
  using zero_area_update_only_resets_flag [OF ex_zero, where imguiData = ex_data and s = ex_state]
    zero_area_update_only_resets_flag [OF ex_zero, where imguiData = ex_data and s = "new_bridge 0"] ex_zero
  by (simp add: new_bridge_def)

text \<open>The bridge that has drawn the example frame holds the flag set, since the frame made
  it create buffers; a call for a minimized window then returns a state that differs from
  the one it was given.\<close>

theorem zero_area_update_changes_flag:
  "update ex_pf ex_io ex_data (new_bridge 0) = Some ex_state \<and>
   zero_area ex_pf ex_io_minimized \<and> has_synced ex_state \<and>
   update ex_pf ex_io_minimized ex_data ex_state \<noteq> Some ex_state"
proof -
  have "update ex_pf ex_io_minimized ex_data ex_state = Some (ex_state\<lparr>has_synced := False\<rparr>)"
    by (rule update_skipped [OF ex_zero])
  moreover have "has_synced ex_state" by (simp add: ex_state_def)
  moreover have "ex_state\<lparr>has_synced := False\<rparr> \<noteq> ex_state"
    by (simp add: ex_state_def)
  ultimately show ?thesis using ex_update ex_zero by simp
qed

text \<open>C7. In one call of \<^verbatim>\<open>update\<close> on a bridge in a regular state the fence wait of
  \<^verbatim>\<open>syncThreads\<close> happens at most once, however many buffers the call creates or
  recreates: the number of fence waits in the engine's log grows by one when threading
  is available and the call created at least one buffer, and not at all otherwise.\<close>

theorem fence_wait_at_most_once_per_update:
  assumes "platform_ok pf" and "bridge_ok s"
  shows "\<exists>s'. update pf io imguiData s = Some s' \<and>
    fence_waits s' =
      fence_waits s +
      (if has_threading pf \<and> buffer_creations s < buffer_creations s' then 1 else 0) \<and>
    fence_waits s' \<le> fence_waits s + 1 \<and>
    (buffer_creations s' = buffer_creations s \<longrightarrow> fence_waits s' = fence_waits s) \<and>
    (\<not> has_threading pf \<longrightarrow> fence_waits s' = fence_waits s)"
proof (cases "zero_area pf io")
  case True
  have "update pf io imguiData s = Some (s\<lparr>has_synced := False\<rparr>)"
    by (rule update_skipped [OF True])
  then show ?thesis by simp
next
  case False
  from update_spec [OF assms False, of imguiData] obtain s' where
    s': "update pf io imguiData s = Some s'"
      "fence_waits s' =
        fence_waits s + (if has_threading pf \<and> buffer_creations s < buffer_creations s' then 1 else 0)"
    by blast
  then show ?thesis by auto
qed

theorem fence_wait_at_most_once_per_update_witness:
  "platform_ok ex_pf \<and> bridge_ok (new_bridge 0) \<and> has_threading ex_pf \<and>
   update ex_pf ex_io ex_data (new_bridge 0) = Some ex_state \<and>
   buffer_creations (new_bridge 0) = 0 \<and> buffer_creations ex_state = 5 \<and>
   fence_waits (new_bridge 0) = 0 \<and> fence_waits ex_state = 1"
proof -
  from fence_wait_at_most_once_per_update [OF ex_platform_ok bridge_ok_new [of 0],
      where io = ex_io and imguiData = ex_data]
  obtain s' where
    s': "update ex_pf ex_io ex_data (new_bridge 0) = Some s'"
      "fence_waits s' =
         fence_waits (new_bridge 0) +
         (if has_threading ex_pf \<and> buffer_creations (new_bridge 0) < buffer_creations s'
          then 1 else 0)"
    by blast
  from s'(1) have eq: "s' = ex_state" by (simp add: ex_update)
  have th: "has_threading ex_pf" by (simp add: ex_pf_def)
  have b0: "buffer_creations (new_bridge 0) = 0" and f0: "fence_waits (new_bridge 0) = 0"
    by (simp_all add: buffer_creations_def fence_waits_def new_bridge_def)
  have b1: "buffer_creations ex_state = 5"
    by (simp add: buffer_creations_def ex_state_def)
  from s'(2) have f1: "fence_waits ex_state = 1" by (simp add: eq th b0 f0 b1)
  from ex_platform_ok bridge_ok_new [of 0] th ex_update b0 b1 f0 f1 show ?thesis by blast
qed

lemma ex_createBuffers: "createBuffers ex_pf 2 (new_bridge 0) = Some ex_buffers"
  by (simp add: bridge_eval ex_pf_def ex_buffers_def numeral_2_eq_2)

lemma ex_populate: "populateVertexData ex_pf 0 24000 42 ex_buffers = Some ex_refilled"
  by (simp add: bridge_eval ex_pf_def ex_buffers_def ex_refilled_def)

text \<open>C3. Take a bridge in a regular state, any sequence of frames and one more frame. All
  the calls of \<^verbatim>\<open>update\<close> return. For every slot the vertex capacity and the index capacity
  after the sequence are at least what they were at the start, and after the further call
  at least what they were before it. The further call changes the capacity of a slot that
  exists only if the frame requested for that slot more than the capacity, and then the
  new capacity is the count requested. After the further call the capacity of every slot
  is at least every count that any of the frames requested for it.\<close>

theorem buffer_capacity_only_grows:
  assumes "platform_ok pf" and "bridge_ok s"
  shows "\<exists>s1 s2. updates pf frames s = Some s1 \<and> update pf (fst fr) (snd fr) s1 = Some s2 \<and>
    updates pf (frames @ [fr]) s = Some s2 \<and>
    (\<forall>i. vertex_capacity s i \<le> vertex_capacity s1 i \<and>
         vertex_capacity s1 i \<le> vertex_capacity s2 i \<and>
         index_capacity s i \<le> index_capacity s1 i \<and>
         index_capacity s1 i \<le> index_capacity s2 i) \<and>
    (\<forall>i. i < length (vertex_buffers s1) \<and> vertex_capacity s2 i \<noteq> vertex_capacity s1 i \<longrightarrow>
       (\<exists>r. requested_vertices pf fr i = Some r \<and> vertex_capacity s1 i < r \<and>
            vertex_capacity s2 i = r)) \<and>
    (\<forall>i. i < length (index_buffers s1) \<and> index_capacity s2 i \<noteq> index_capacity s1 i \<longrightarrow>
       (\<exists>r. requested_indices pf fr i = Some r \<and> index_capacity s1 i < r \<and>
            index_capacity s2 i = r)) \<and>
    (\<forall>g \<in> set (frames @ [fr]). \<forall>i r.
       requested_vertices pf g i = Some r \<longrightarrow> r \<le> vertex_capacity s2 i) \<and>
    (\<forall>g \<in> set (frames @ [fr]). \<forall>i r.
       requested_indices pf g i = Some r \<longrightarrow> r \<le> index_capacity s2 i)"
proof -
  obtain io imguiData where fr: "fr = (io, imguiData)" by (cases fr)
  from updates_steps [OF assms, of frames] obtain s1 where
    s1: "updates pf frames s = Some s1" "bridge_ok s1" "never_less s s1"
      "\<forall>g \<in> set frames. \<forall>i r. requested_vertices pf g i = Some r \<longrightarrow> r \<le> vertex_capacity s1 i"
      "\<forall>g \<in> set frames. \<forall>i r. requested_indices pf g i = Some r \<longrightarrow> r \<le> index_capacity s1 i"
    by blast
  from update_step [OF assms(1) s1(2), of io imguiData] obtain s2 where
    s2: "update pf io imguiData s1 = Some s2" "never_less s1 s2"
      "\<forall>i r. requested_vertices pf fr i = Some r \<longrightarrow> r \<le> vertex_capacity s2 i"
      "\<forall>i r. requested_indices pf fr i = Some r \<longrightarrow> r \<le> index_capacity s2 i"
      "\<forall>i. i < length (vertex_buffers s1) \<and> vertex_capacity s2 i \<noteq> vertex_capacity s1 i \<longrightarrow>
         (\<exists>r. requested_vertices pf fr i = Some r \<and> vertex_capacity s1 i < r \<and>
              vertex_capacity s2 i = r)"
      "\<forall>i. i < length (index_buffers s1) \<and> index_capacity s2 i \<noteq> index_capacity s1 i \<longrightarrow>
         (\<exists>r. requested_indices pf fr i = Some r \<and> index_capacity s1 i < r \<and>
              index_capacity s2 i = r)"
    unfolding fr by blast
  have run1: "update pf (fst fr) (snd fr) s1 = Some s2" using s2(1) by (simp add: fr)
  have run2: "updates pf (frames @ [fr]) s = Some s2"
    using s1(1) s2(1) by (simp add: updates_append fr)
  have a: "\<And>i. vertex_capacity s i \<le> vertex_capacity s1 i"
    and b: "\<And>i. index_capacity s i \<le> index_capacity s1 i"
    using s1(3) by (simp_all add: never_less_def)
  have c: "\<And>i. vertex_capacity s1 i \<le> vertex_capacity s2 i"
    and d: "\<And>i. index_capacity s1 i \<le> index_capacity s2 i"
    using s2(2) by (simp_all add: never_less_def)
  have mono: "\<forall>i. vertex_capacity s i \<le> vertex_capacity s1 i \<and>
         vertex_capacity s1 i \<le> vertex_capacity s2 i \<and>
         index_capacity s i \<le> index_capacity s1 i \<and>
         index_capacity s1 i \<le> index_capacity s2 i"
    using a b c d by blast
  have hv: "\<forall>g \<in> set (frames @ [fr]). \<forall>i r.
       requested_vertices pf g i = Some r \<longrightarrow> r \<le> vertex_capacity s2 i"
  proof (intro ballI allI impI)
    fix g i r assume g: "g \<in> set (frames @ [fr])" and r: "requested_vertices pf g i = Some r"
    show "r \<le> vertex_capacity s2 i"
    proof (cases "g = fr")
      case True
      with r s2(3) show ?thesis by blast
    next
      case False
      with g have "g \<in> set frames" by simp
      with r s1(4) have "r \<le> vertex_capacity s1 i" by blast
      with c [of i] show ?thesis by simp
    qed
  qed
  have hi: "\<forall>g \<in> set (frames @ [fr]). \<forall>i r.
       requested_indices pf g i = Some r \<longrightarrow> r \<le> index_capacity s2 i"
  proof (intro ballI allI impI)
    fix g i r assume g: "g \<in> set (frames @ [fr])" and r: "requested_indices pf g i = Some r"
    show "r \<le> index_capacity s2 i"
    proof (cases "g = fr")
      case True
      with r s2(4) show ?thesis by blast
    next
      case False
      with g have "g \<in> set frames" by simp
      with r s1(5) have "r \<le> index_capacity s1 i" by blast
      with d [of i] show ?thesis by simp
    qed
  qed
  from s1(1) run1 run2 mono s2(5,6) hv hi show ?thesis by blast
qed

theorem buffer_capacity_only_grows_witness:
  "platform_ok ex_pf \<and> bridge_ok (new_bridge 0) \<and>
   updates ex_pf [(ex_io, ex_data)] (new_bridge 0) = Some ex_state \<and>
   requested_vertices ex_pf (ex_io, ex_data) 0 = Some 1200 \<and>
   requested_indices ex_pf (ex_io, ex_data) 0 = Some 21 \<and>
   vertex_capacity (new_bridge 0) 0 = 0 \<and> vertex_capacity ex_state 0 = 1200 \<and>
   index_capacity ex_state 0 = 5000 \<and>
   1200 \<le> vertex_capacity ex_state 0 \<and> 21 \<le> index_capacity ex_state 0"
proof -
  from buffer_capacity_only_grows [OF ex_platform_ok bridge_ok_new [of 0],
      where frames = "[]" and fr = "(ex_io, ex_data)"]
  obtain s2 where
    s2: "updates ex_pf ([] @ [(ex_io, ex_data)]) (new_bridge 0) = Some s2"
      "\<forall>g \<in> set ([] @ [(ex_io, ex_data)]). \<forall>i r.
         requested_vertices ex_pf g i = Some r \<longrightarrow> r \<le> vertex_capacity s2 i"
      "\<forall>g \<in> set ([] @ [(ex_io, ex_data)]). \<forall>i r.
         requested_indices ex_pf g i = Some r \<longrightarrow> r \<le> index_capacity s2 i"
    by blast
  have run: "updates ex_pf [(ex_io, ex_data)] (new_bridge 0) = Some ex_state"
    by (simp add: ex_update)
  with s2(1) have eq: "s2 = ex_state" by simp
  have rv: "requested_vertices ex_pf (ex_io, ex_data) 0 = Some 1200"
    by (simp add: requested_drawn [OF ex_not_zero] ex_data_def)
  have ri: "requested_indices ex_pf (ex_io, ex_data) 0 = Some 21"
    by (simp add: requested_drawn [OF ex_not_zero] ex_data_def)
  from s2(2) rv have v: "1200 \<le> vertex_capacity ex_state 0" by (simp add: eq)
  from s2(3) ri have i: "21 \<le> index_capacity ex_state 0" by (simp add: eq)
  have c0: "vertex_capacity (new_bridge 0) 0 = 0"
    by (simp add: vertex_capacity_def buffer_at_def vec_at_def new_bridge_def)
  have c1: "vertex_capacity ex_state 0 = 1200" "index_capacity ex_state 0 = 5000"
    by (simp_all add: vertex_capacity_def index_capacity_def buffer_at_def vec_at_def ex_state_def)
  from ex_platform_ok bridge_ok_new [of 0] run rv ri c0 c1 v i show ?thesis by blast
qed

text \<open>C6. \<^verbatim>\<open>createBuffers(n)\<close> returns; afterwards there are \<open>max n\<close> of the former number of
  vertex slots and as many index slots, so \<open>n\<close> minus the former number were appended when
  \<open>n\<close> is larger; the former slots hold what they held, every appended vertex slot holds a
  buffer of capacity 1000 and every appended index slot one of capacity 5000, and as many
  buffers were created as slots were appended. \<^verbatim>\<open>populateVertexData\<close> on a slot that holds
  a vertex and an index buffer returns; when the capacity of the vertex buffer is smaller
  than the count required, the engine was asked to destroy that buffer and to create the
  one the slot holds now, whose capacity is exactly the count required, and otherwise the
  slot holds the buffer it held; likewise for the index buffer.\<close>

theorem buffers_created_and_recreated_as_specified:
  "(\<exists>s'. createBuffers pf n s = Some s' \<and>
      length (vertex_buffers s') = max n (length (vertex_buffers s)) \<and>
      length (index_buffers s') = max n (length (index_buffers s)) \<and>
      take (length (vertex_buffers s)) (vertex_buffers s') = vertex_buffers s \<and>
      take (length (index_buffers s)) (index_buffers s') = index_buffers s \<and>
      (\<forall>j. length (vertex_buffers s) \<le> j \<and> j < n \<longrightarrow>
         (\<exists>b. vertex_buffers s' ! j = Some b \<and> vertexCount b = 1000)) \<and>
      (\<forall>j. length (index_buffers s) \<le> j \<and> j < n \<longrightarrow>
         (\<exists>b. index_buffers s' ! j = Some b \<and> indexCount b = 5000)) \<and>
      buffer_creations s' =
        buffer_creations s + (n - length (vertex_buffers s)) + (n - length (index_buffers s))) \<and>
   (\<forall>vb0 ib0.
      buffer_at (vertex_buffers s) i = Some vb0 \<and> buffer_at (index_buffers s) i = Some ib0 \<longrightarrow>
      (\<exists>s' vb ib evs. populateVertexData pf i vbSizeInBytes ibSizeInBytes s = Some s' \<and>
         buffer_at (vertex_buffers s') i = Some vb \<and> buffer_at (index_buffers s') i = Some ib \<and>
         engine_log s' = evs @ engine_log s \<and>
         (vertexCount vb0 < vbSizeInBytes div sizeof_ImDrawVert \<longrightarrow>
            vertexCount vb = vbSizeInBytes div sizeof_ImDrawVert \<and>
            Ev_DestroyVB (vb_id vb0) \<in> set evs \<and>
            Ev_CreateVB (vb_id vb) (vbSizeInBytes div sizeof_ImDrawVert) \<in> set evs) \<and>
         (vbSizeInBytes div sizeof_ImDrawVert \<le> vertexCount vb0 \<longrightarrow> vb = vb0) \<and>
         (indexCount ib0 < ibSizeInBytes div 2 \<longrightarrow>
            indexCount ib = ibSizeInBytes div 2 \<and>
            Ev_DestroyIB (ib_id ib0) \<in> set evs \<and>
            Ev_CreateIB (ib_id ib) (ibSizeInBytes div 2) \<in> set evs) \<and>
         (ibSizeInBytes div 2 \<le> indexCount ib0 \<longrightarrow> ib = ib0)))"
proof (rule conjI)
  from createBuffers_spec [of pf n s]
  show "\<exists>s'. createBuffers pf n s = Some s' \<and>
      length (vertex_buffers s') = max n (length (vertex_buffers s)) \<and>
      length (index_buffers s') = max n (length (index_buffers s)) \<and>
      take (length (vertex_buffers s)) (vertex_buffers s') = vertex_buffers s \<and>
      take (length (index_buffers s)) (index_buffers s') = index_buffers s \<and>
      (\<forall>j. length (vertex_buffers s) \<le> j \<and> j < n \<longrightarrow>
         (\<exists>b. vertex_buffers s' ! j = Some b \<and> vertexCount b = 1000)) \<and>
      (\<forall>j. length (index_buffers s) \<le> j \<and> j < n \<longrightarrow>
         (\<exists>b. index_buffers s' ! j = Some b \<and> indexCount b = 5000)) \<and>
      buffer_creations s' =
        buffer_creations s + (n - length (vertex_buffers s)) + (n - length (index_buffers s))"
    by blast
next
  show "\<forall>vb0 ib0.
      buffer_at (vertex_buffers s) i = Some vb0 \<and> buffer_at (index_buffers s) i = Some ib0 \<longrightarrow>
      (\<exists>s' vb ib evs. populateVertexData pf i vbSizeInBytes ibSizeInBytes s = Some s' \<and>
         buffer_at (vertex_buffers s') i = Some vb \<and> buffer_at (index_buffers s') i = Some ib \<and>
         engine_log s' = evs @ engine_log s \<and>
         (vertexCount vb0 < vbSizeInBytes div sizeof_ImDrawVert \<longrightarrow>
            vertexCount vb = vbSizeInBytes div sizeof_ImDrawVert \<and>
            Ev_DestroyVB (vb_id vb0) \<in> set evs \<and>
            Ev_CreateVB (vb_id vb) (vbSizeInBytes div sizeof_ImDrawVert) \<in> set evs) \<and>
         (vbSizeInBytes div sizeof_ImDrawVert \<le> vertexCount vb0 \<longrightarrow> vb = vb0) \<and>
         (indexCount ib0 < ibSizeInBytes div 2 \<longrightarrow>
            indexCount ib = ibSizeInBytes div 2 \<and>
            Ev_DestroyIB (ib_id ib0) \<in> set evs \<and>
            Ev_CreateIB (ib_id ib) (ibSizeInBytes div 2) \<in> set evs) \<and>
         (ibSizeInBytes div 2 \<le> indexCount ib0 \<longrightarrow> ib = ib0))"
  proof (intro allI impI, elim conjE)
    fix vb0 ib0
    assume v0: "buffer_at (vertex_buffers s) i = Some vb0"
      and i0: "buffer_at (index_buffers s) i = Some ib0"
    from populate_vertices_log [OF v0, of pf vbSizeInBytes] obtain s1 vb ev1 where
      s1: "populate_vertices pf i vbSizeInBytes s = Some s1"
        "buffer_at (vertex_buffers s1) i = Some vb" "engine_log s1 = ev1 @ engine_log s"
        "index_buffers s1 = index_buffers s"
        "vertexCount vb0 < vbSizeInBytes div sizeof_ImDrawVert \<longrightarrow>
           vertexCount vb = vbSizeInBytes div sizeof_ImDrawVert \<and> vb_id vb = engine_next s \<and>
           Ev_DestroyVB (vb_id vb0) \<in> set ev1 \<and>
           Ev_CreateVB (vb_id vb) (vbSizeInBytes div sizeof_ImDrawVert) \<in> set ev1"
        "vbSizeInBytes div sizeof_ImDrawVert \<le> vertexCount vb0 \<longrightarrow> vb = vb0"
      by blast
    from i0 s1(4) have i1: "buffer_at (index_buffers s1) i = Some ib0" by simp
    from populate_indices_log [OF i1, of pf ibSizeInBytes] obtain s2 ib ev2 where
      s2: "populate_indices pf i ibSizeInBytes s1 = Some s2"
        "buffer_at (index_buffers s2) i = Some ib" "engine_log s2 = ev2 @ engine_log s1"
        "vertex_buffers s2 = vertex_buffers s1"
        "indexCount ib0 < ibSizeInBytes div 2 \<longrightarrow>
           indexCount ib = ibSizeInBytes div 2 \<and> ib_id ib = engine_next s1 \<and>
           Ev_DestroyIB (ib_id ib0) \<in> set ev2 \<and>
           Ev_CreateIB (ib_id ib) (ibSizeInBytes div 2) \<in> set ev2"
        "ibSizeInBytes div 2 \<le> indexCount ib0 \<longrightarrow> ib = ib0"
      by blast
    have run: "populateVertexData pf i vbSizeInBytes ibSizeInBytes s = Some s2"
      using s1(1) s2(1) by (simp add: populateVertexData_def)
    have at: "buffer_at (vertex_buffers s2) i = Some vb" using s1(2) s2(4) by simp
    have log: "engine_log s2 = (ev2 @ ev1) @ engine_log s" using s1(3) s2(3) by simp
    have v: "vertexCount vb0 < vbSizeInBytes div sizeof_ImDrawVert \<longrightarrow>
            vertexCount vb = vbSizeInBytes div sizeof_ImDrawVert \<and>
            Ev_DestroyVB (vb_id vb0) \<in> set (ev2 @ ev1) \<and>
            Ev_CreateVB (vb_id vb) (vbSizeInBytes div sizeof_ImDrawVert) \<in> set (ev2 @ ev1)"
      using s1(5) by auto
    have x: "indexCount ib0 < ibSizeInBytes div 2 \<longrightarrow>
            indexCount ib = ibSizeInBytes div 2 \<and>
            Ev_DestroyIB (ib_id ib0) \<in> set (ev2 @ ev1) \<and>
            Ev_CreateIB (ib_id ib) (ibSizeInBytes div 2) \<in> set (ev2 @ ev1)"
      using s2(5) by auto
    from run at s2(2) log v s1(6) x s2(6)
    show "\<exists>s' vb ib evs. populateVertexData pf i vbSizeInBytes ibSizeInBytes s = Some s' \<and>
         buffer_at (vertex_buffers s') i = Some vb \<and> buffer_at (index_buffers s') i = Some ib \<and>
         engine_log s' = evs @ engine_log s \<and>
         (vertexCount vb0 < vbSizeInBytes div sizeof_ImDrawVert \<longrightarrow>
            vertexCount vb = vbSizeInBytes div sizeof_ImDrawVert \<and>
            Ev_DestroyVB (vb_id vb0) \<in> set evs \<and>
            Ev_CreateVB (vb_id vb) (vbSizeInBytes div sizeof_ImDrawVert) \<in> set evs) \<and>
         (vbSizeInBytes div sizeof_ImDrawVert \<le> vertexCount vb0 \<longrightarrow> vb = vb0) \<and>
         (indexCount ib0 < ibSizeInBytes div 2 \<longrightarrow>
            indexCount ib = ibSizeInBytes div 2 \<and>
            Ev_DestroyIB (ib_id ib0) \<in> set evs \<and>
            Ev_CreateIB (ib_id ib) (ibSizeInBytes div 2) \<in> set evs) \<and>
         (ibSizeInBytes div 2 \<le> indexCount ib0 \<longrightarrow> ib = ib0)"
      by blast
  qed
qed

theorem buffers_created_and_recreated_as_specified_witness:
  "createBuffers ex_pf 2 (new_bridge 0) = Some ex_buffers \<and>
   length (vertex_buffers ex_buffers) = 2 \<and> length (index_buffers ex_buffers) = 2 \<and>
   buffer_at (vertex_buffers ex_buffers) 0 = Some \<lparr>vb_id = 1, vertexCount = 1000\<rparr> \<and>
   buffer_at (index_buffers ex_buffers) 0 = Some \<lparr>ib_id = 3, indexCount = 5000\<rparr> \<and>
   populateVertexData ex_pf 0 24000 42 ex_buffers = Some ex_refilled \<and>
   buffer_at (vertex_buffers ex_refilled) 0 = Some \<lparr>vb_id = 5, vertexCount = 1200\<rparr> \<and>
   buffer_at (index_buffers ex_refilled) 0 = Some \<lparr>ib_id = 3, indexCount = 5000\<rparr> \<and>
   Ev_DestroyVB 1 \<in> set (engine_log ex_refilled) \<and>
   Ev_CreateVB 5 1200 \<in> set (engine_log ex_refilled)"
proof -
  note t = buffers_created_and_recreated_as_specified
    [where pf = ex_pf and s = ex_buffers and i = 0 and n = 2
       and vbSizeInBytes = 24000 and ibSizeInBytes = 42]
  have v0: "buffer_at (vertex_buffers ex_buffers) 0 = Some \<lparr>vb_id = 1, vertexCount = 1000\<rparr>"
    and i0: "buffer_at (index_buffers ex_buffers) 0 = Some \<lparr>ib_id = 3, indexCount = 5000\<rparr>"
    by (simp_all add: buffer_at_def vec_at_def ex_buffers_def)
  from t v0 i0 obtain s' vb ib evs where
    s': "populateVertexData ex_pf 0 24000 42 ex_buffers = Some s'"
      "buffer_at (vertex_buffers s') 0 = Some vb" "buffer_at (index_buffers s') 0 = Some ib"
      "engine_log s' = evs @ engine_log ex_buffers"
      "vertexCount \<lparr>vb_id = 1, vertexCount = 1000\<rparr> < 24000 div sizeof_ImDrawVert \<longrightarrow>
         vertexCount vb = 24000 div sizeof_ImDrawVert \<and>
         Ev_DestroyVB (vb_id \<lparr>vb_id = 1, vertexCount = 1000\<rparr>) \<in> set evs \<and>
         Ev_CreateVB (vb_id vb) (24000 div sizeof_ImDrawVert) \<in> set evs"
      "42 div 2 \<le> indexCount \<lparr>ib_id = 3, indexCount = 5000\<rparr> \<longrightarrow>
         ib = \<lparr>ib_id = 3, indexCount = 5000\<rparr>"
    by blast
  from s'(1) have eq: "s' = ex_refilled" by (simp add: ex_populate)
  have v1: "buffer_at (vertex_buffers ex_refilled) 0 = Some \<lparr>vb_id = 5, vertexCount = 1200\<rparr>"
    by (simp add: buffer_at_def vec_at_def ex_refilled_def)
  with s'(2) have vb: "vb = \<lparr>vb_id = 5, vertexCount = 1200\<rparr>" by (simp add: eq)
  from s'(6) have "ib = \<lparr>ib_id = 3, indexCount = 5000\<rparr>" by simp
  with s'(3) have i1: "buffer_at (index_buffers ex_refilled) 0 = Some \<lparr>ib_id = 3, indexCount = 5000\<rparr>"
    by (simp add: eq)
  from s'(5) have "Ev_DestroyVB 1 \<in> set evs \<and> Ev_CreateVB 5 1200 \<in> set evs"
    by (simp add: sizeof_ImDrawVert_def vb)
  with s'(4) have ev: "Ev_DestroyVB 1 \<in> set (engine_log ex_refilled)"
      "Ev_CreateVB 5 1200 \<in> set (engine_log ex_refilled)"
    by (simp_all add: eq)
  have len: "length (vertex_buffers ex_buffers) = 2" "length (index_buffers ex_buffers) = 2"
    by (simp_all add: ex_buffers_def)
  from ex_createBuffers len v0 i0 ex_populate v1 i1 ev show ?thesis by blast
qed

lemma ex_drawn_keys:
  "map (cmd_key ex_pf ex_io) (drawn (frame_cmds ex_pf ex_io ex_data)) =
     [168888422000230400, 168888422000230400, 22518341767004180]"
  unfolding ex_frame_cmds
  by (simp add: drawn_def cmd_key_def fb_size_def to_int_def makeScissorKey_def
      to_uint16_def ex_pf_def ex_io_def)

lemma card_image_list: "card (f ` set xs) = length (remdups (map f xs))"
  by (simp add: length_remdups_card_conv)

text \<open>C2. In a call of \<^verbatim>\<open>update\<close> that draws the frame, every distinct key among the
  frame's draw commands is given one material instance of the pool, different keys
  different instances, and that instance carries the scissor rectangle read back from
  the key. The primitives get the instances of the keys of the commands they are built
  for, which are the commands without a user callback: so the number of distinct
  instances on primitives is the number of distinct keys among those commands, and it is
  the number of distinct keys of the frame when no command has a callback. The pool has
  afterwards the larger of its former size and the number of distinct keys of all the
  commands, and its former instances are still its first ones. A call that skips the
  frame leaves the pool alone, and over any sequence of calls the pool never shrinks.\<close>

theorem material_instances_follow_scissor_keys:
  assumes "platform_ok pf" and "bridge_ok s"
  shows "(\<not> zero_area pf io \<longrightarrow>
      (\<exists>s' assign. update pf io imguiData s = Some s' \<and>
         map prim_material (emitted s') =
           map (\<lambda>pcmd. assign (cmd_key pf io pcmd)) (drawn (frame_cmds pf io imguiData)) \<and>
         inj_on assign (cmd_key pf io ` set (frame_cmds pf io imguiData)) \<and>
         (\<forall>k \<in> cmd_key pf io ` set (frame_cmds pf io imguiData).
            \<exists>m \<in> set (material_instances s'). mi_id m = assign k \<and> scissor m = Some (key_fields k)) \<and>
         card (prim_material ` set (emitted s')) =
           card (cmd_key pf io ` set (drawn (frame_cmds pf io imguiData))) \<and>
         ((\<forall>pcmd \<in> set (frame_cmds pf io imguiData). \<not> UserCallback pcmd) \<longrightarrow>
            card (prim_material ` set (emitted s')) =
              card (cmd_key pf io ` set (frame_cmds pf io imguiData))) \<and>
         length (material_instances s') =
           max (length (material_instances s))
               (card (cmd_key pf io ` set (frame_cmds pf io imguiData))) \<and>
         map mi_id (take (length (material_instances s)) (material_instances s')) =
           map mi_id (material_instances s))) \<and>
    (zero_area pf io \<longrightarrow>
      (\<exists>s'. update pf io imguiData s = Some s' \<and> material_instances s' = material_instances s)) \<and>
    (\<exists>s''. updates pf frames s = Some s'' \<and>
       length (material_instances s) \<le> length (material_instances s''))"
proof (intro conjI impI)
  assume nz: "\<not> zero_area pf io"
  define all_cmds where "all_cmds = frame_cmds pf io imguiData"
  from update_spec [OF assms nz, of imguiData] obtain s' assign where
    s': "update pf io imguiData s = Some s'"
      "map prim_material (emitted s') = map (\<lambda>pcmd. assign (cmd_key pf io pcmd)) (drawn all_cmds)"
      "inj_on assign (cmd_key pf io ` set all_cmds)"
      "\<forall>k \<in> cmd_key pf io ` set all_cmds.
         \<exists>m \<in> set (material_instances s'). mi_id m = assign k \<and> scissor m = Some (key_fields k)"
      "length (material_instances s') =
         max (length (material_instances s)) (card (cmd_key pf io ` set all_cmds))"
      "map mi_id (take (length (material_instances s)) (material_instances s')) =
         map mi_id (material_instances s)"
    unfolding all_cmds_def by blast
  have sub: "cmd_key pf io ` set (drawn all_cmds) \<subseteq> cmd_key pf io ` set all_cmds"
    by (auto simp: drawn_def)
  have "prim_material ` set (emitted s') = set (map prim_material (emitted s'))" by simp
  also have "\<dots> = assign ` (cmd_key pf io ` set (drawn all_cmds))"
    by (simp only: s'(2)) (simp add: image_image)
  finally have img: "prim_material ` set (emitted s') = assign ` (cmd_key pf io ` set (drawn all_cmds))" .
  have "inj_on assign (cmd_key pf io ` set (drawn all_cmds))"
    using s'(3) sub by (rule inj_on_subset)
  then have card: "card (prim_material ` set (emitted s')) = card (cmd_key pf io ` set (drawn all_cmds))"
    unfolding img by (rule card_image)
  have nocb: "(\<forall>pcmd \<in> set all_cmds. \<not> UserCallback pcmd) \<longrightarrow>
      card (prim_material ` set (emitted s')) = card (cmd_key pf io ` set all_cmds)"
  proof
    assume "\<forall>pcmd \<in> set all_cmds. \<not> UserCallback pcmd"
    then have "drawn all_cmds = all_cmds" by (simp add: drawn_def)
    with card show "card (prim_material ` set (emitted s')) = card (cmd_key pf io ` set all_cmds)"
      by simp
  qed
  from s'(1,2,3,4) card nocb s'(5,6)
  show "\<exists>s' assign. update pf io imguiData s = Some s' \<and>
         map prim_material (emitted s') =
           map (\<lambda>pcmd. assign (cmd_key pf io pcmd)) (drawn (frame_cmds pf io imguiData)) \<and>
         inj_on assign (cmd_key pf io ` set (frame_cmds pf io imguiData)) \<and>
         (\<forall>k \<in> cmd_key pf io ` set (frame_cmds pf io imguiData).
            \<exists>m \<in> set (material_instances s'). mi_id m = assign k \<and> scissor m = Some (key_fields k)) \<and>
         card (prim_material ` set (emitted s')) =
           card (cmd_key pf io ` set (drawn (frame_cmds pf io imguiData))) \<and>
         ((\<forall>pcmd \<in> set (frame_cmds pf io imguiData). \<not> UserCallback pcmd) \<longrightarrow>
            card (prim_material ` set (emitted s')) =
              card (cmd_key pf io ` set (frame_cmds pf io imguiData))) \<and>
         length (material_instances s') =
           max (length (material_instances s))
               (card (cmd_key pf io ` set (frame_cmds pf io imguiData))) \<and>
         map mi_id (take (length (material_instances s)) (material_instances s')) =
           map mi_id (material_instances s)"
    unfolding all_cmds_def by blast
next
  assume "zero_area pf io"
  then have "update pf io imguiData s = Some (s\<lparr>has_synced := False\<rparr>)" by (rule update_skipped)
  then show "\<exists>s'. update pf io imguiData s = Some s' \<and> material_instances s' = material_instances s"
    by simp
next
  from updates_steps [OF assms, of frames] obtain s'' where
    "updates pf frames s = Some s''" "never_less s s''" by blast
  then show "\<exists>s''. updates pf frames s = Some s'' \<and>
       length (material_instances s) \<le> length (material_instances s'')"
    by (simp add: never_less_def)
qed

theorem material_instances_follow_scissor_keys_witness:
  "platform_ok ex_pf \<and> bridge_ok (new_bridge 0) \<and> \<not> zero_area ex_pf ex_io \<and>
   update ex_pf ex_io ex_data (new_bridge 0) = Some ex_state \<and>
   card (cmd_key ex_pf ex_io ` set (drawn (frame_cmds ex_pf ex_io ex_data))) = 2 \<and>
   card (prim_material ` set (emitted ex_state)) = 2 \<and>
   length (material_instances (new_bridge 0)) = 0 \<and>
   length (material_instances ex_state) = 3"
proof -
  from material_instances_follow_scissor_keys [OF ex_platform_ok bridge_ok_new [of 0],
      where io = ex_io and imguiData = ex_data and frames = "[]"] ex_not_zero
  obtain s' where
    s': "update ex_pf ex_io ex_data (new_bridge 0) = Some s'"
      "card (prim_material ` set (emitted s')) =
         card (cmd_key ex_pf ex_io ` set (drawn (frame_cmds ex_pf ex_io ex_data)))"
      "length (material_instances s') =
         max (length (material_instances (new_bridge 0)))
             (card (cmd_key ex_pf ex_io ` set (frame_cmds ex_pf ex_io ex_data)))"
    by blast
  from s'(1) have eq: "s' = ex_state" by (simp add: ex_update)
  have d: "card (cmd_key ex_pf ex_io ` set (drawn (frame_cmds ex_pf ex_io ex_data))) = 2"
    unfolding card_image_list ex_drawn_keys by simp
  with s'(2) have m: "card (prim_material ` set (emitted ex_state)) = 2" by (simp add: eq)
  have k: "card (cmd_key ex_pf ex_io ` set (frame_cmds ex_pf ex_io ex_data)) = 3"
    unfolding card_image_list ex_keys by simp
  have l0: "length (material_instances (new_bridge 0)) = 0" by (simp add: new_bridge_def)
  from s'(3) have l1: "length (material_instances ex_state) = 3" by (simp add: eq k l0)
  from ex_platform_ok bridge_ok_new [of 0] ex_not_zero ex_update d m l0 l1 show ?thesis by blast
qed

text \<open>The example frame has three distinct keys among its four commands, but the key of
  its second command, which carries a user callback, is the key of no other command: the
  three primitives built use two material instances, while the pool grows to three.\<close>

theorem callback_key_gets_unused_instance:
  "update ex_pf ex_io ex_data (new_bridge 0) = Some ex_state \<and>
   map (cmd_key ex_pf ex_io) (frame_cmds ex_pf ex_io ex_data) =
     [168888422000230400, 25333134483783690, 168888422000230400, 22518341767004180] \<and>
   card (cmd_key ex_pf ex_io ` set (frame_cmds ex_pf ex_io ex_data)) = 3 \<and>
   map prim_material (emitted ex_state) = [6, 6, 7] \<and>
   card (prim_material ` set (emitted ex_state)) = 2 \<and>
   card (prim_material ` set (emitted ex_state)) \<noteq>
     card (cmd_key ex_pf ex_io ` set (frame_cmds ex_pf ex_io ex_data))"
proof -
  have k: "card (cmd_key ex_pf ex_io ` set (frame_cmds ex_pf ex_io ex_data)) = 3"
    unfolding card_image_list ex_keys by simp
  have p: "map prim_material (emitted ex_state) = [6, 6, 7]" by (simp add: ex_emitted)
  have m: "card (prim_material ` set (emitted ex_state)) = 2"
    unfolding card_image_list p by simp
  from ex_update ex_keys k p m show ?thesis by simp
qed

text \<open>C4. The key of a clip rectangle is the 64-bit value whose bits 0 to 15, 16 to 31,
  32 to 47 and 48 to 63 are the four components left = x, bottom = fbheight - w,
  width = z - x and height = w - y, each converted to \<^verbatim>\<open>uint16_t\<close> by a cast. The cast
  does not clamp; the key is the key of the clamped components when every component,
  truncated, lies in the range of \<^verbatim>\<open>uint16_t\<close>. Two rectangles have the same key exactly
  when their four converted components agree, and in a frame that is drawn the material
  instance of a primitive is determined by the converted components of its command, so
  that commands with the same components share one instance and commands with different
  components do not.\<close>

theorem scissor_key_packs_cast_components:
  "makeScissorKey pf fbheight clipRect = pack_key (scissor_tuple pf fbheight clipRect) \<and>
   (ucast (drop_bit 0 (makeScissorKey pf fbheight clipRect)),
    ucast (drop_bit 16 (makeScissorKey pf fbheight clipRect)),
    ucast (drop_bit 32 (makeScissorKey pf fbheight clipRect)),
    ucast (drop_bit 48 (makeScissorKey pf fbheight clipRect))) =
     scissor_tuple pf fbheight clipRect \<and>
   (rect_in_range pf fbheight clipRect \<longrightarrow>
      makeScissorKey pf fbheight clipRect = clamped_key pf fbheight clipRect) \<and>
   ((makeScissorKey pf fbheight r1 = makeScissorKey pf fbheight r2) =
    (scissor_tuple pf fbheight r1 = scissor_tuple pf fbheight r2)) \<and>
   (platform_ok pf \<and> bridge_ok s \<and> \<not> zero_area pf io \<longrightarrow>
      (\<exists>s' assign. update pf io imguiData s = Some s' \<and>
         map prim_material (emitted s') =
           map (\<lambda>pcmd. assign (scissor_tuple pf (snd (fb_size pf io)) (ClipRect pcmd)))
               (drawn (frame_cmds pf io imguiData)) \<and>
         inj_on assign
           ((\<lambda>pcmd. scissor_tuple pf (snd (fb_size pf io)) (ClipRect pcmd)) `
              set (frame_cmds pf io imguiData))))"
proof (intro conjI impI)
  show "makeScissorKey pf fbheight clipRect = pack_key (scissor_tuple pf fbheight clipRect)"
    by (rule makeScissorKey_pack)
next
  obtain a b c d where t: "scissor_tuple pf fbheight clipRect = (a, b, c, d)"
    by (cases "scissor_tuple pf fbheight clipRect")
  show "(ucast (drop_bit 0 (makeScissorKey pf fbheight clipRect)),
    ucast (drop_bit 16 (makeScissorKey pf fbheight clipRect)),
    ucast (drop_bit 32 (makeScissorKey pf fbheight clipRect)),
    ucast (drop_bit 48 (makeScissorKey pf fbheight clipRect))) =
     scissor_tuple pf fbheight clipRect"
    by (simp only: makeScissorKey_pack t pack_key_low)
next
  assume "rect_in_range pf fbheight clipRect"
  then show "makeScissorKey pf fbheight clipRect = clamped_key pf fbheight clipRect"
    by (rule key_in_range)
next
  show "(makeScissorKey pf fbheight r1 = makeScissorKey pf fbheight r2) =
    (scissor_tuple pf fbheight r1 = scissor_tuple pf fbheight r2)"
    unfolding makeScissorKey_pack by (auto dest: pack_key_inj)
next
  assume a: "platform_ok pf \<and> bridge_ok s \<and> \<not> zero_area pf io"
  define h where "h = snd (fb_size pf io)"
  define all_cmds where "all_cmds = frame_cmds pf io imguiData"
  from a have pok: "platform_ok pf" and bok: "bridge_ok s" and nz: "\<not> zero_area pf io"
    by simp_all
  from update_spec [OF pok bok nz, of imguiData] obtain s' assign where
    s': "update pf io imguiData s = Some s'"
      "map prim_material (emitted s') = map (\<lambda>pcmd. assign (cmd_key pf io pcmd)) (drawn all_cmds)"
      "inj_on assign (cmd_key pf io ` set all_cmds)"
    unfolding all_cmds_def by blast
  define assign' where "assign' = (\<lambda>t. assign (pack_key t))"
  have key: "\<And>pcmd. cmd_key pf io pcmd = pack_key (scissor_tuple pf h (ClipRect pcmd))"
    by (simp add: cmd_key_def makeScissorKey_pack h_def)
  have mats: "map prim_material (emitted s') =
      map (\<lambda>pcmd. assign' (scissor_tuple pf h (ClipRect pcmd))) (drawn all_cmds)"
    using s'(2) by (simp add: key assign'_def)
  have inj: "inj_on assign' ((\<lambda>pcmd. scissor_tuple pf h (ClipRect pcmd)) ` set all_cmds)"
  proof (rule inj_onI)
    fix t u
    assume t: "t \<in> (\<lambda>pcmd. scissor_tuple pf h (ClipRect pcmd)) ` set all_cmds"
      and u: "u \<in> (\<lambda>pcmd. scissor_tuple pf h (ClipRect pcmd)) ` set all_cmds"
      and eq: "assign' t = assign' u"
    from t have "pack_key t \<in> cmd_key pf io ` set all_cmds" by (auto simp: key)
    moreover from u have "pack_key u \<in> cmd_key pf io ` set all_cmds" by (auto simp: key)
    moreover from eq have "assign (pack_key t) = assign (pack_key u)" by (simp add: assign'_def)
    ultimately have "pack_key t = pack_key u" using s'(3) by (blast dest: inj_onD)
    then show "t = u" by (rule pack_key_inj)
  qed
  from s'(1) mats inj
  show "\<exists>s' assign. update pf io imguiData s = Some s' \<and>
         map prim_material (emitted s') =
           map (\<lambda>pcmd. assign (scissor_tuple pf (snd (fb_size pf io)) (ClipRect pcmd)))
               (drawn (frame_cmds pf io imguiData)) \<and>
         inj_on assign
           ((\<lambda>pcmd. scissor_tuple pf (snd (fb_size pf io)) (ClipRect pcmd)) `
              set (frame_cmds pf io imguiData))"
    unfolding h_def all_cmds_def by blast
qed

theorem scissor_key_packs_cast_components_witness:
  "rect_in_range ex_pf 600 (ImVec4 10 10 100 100) \<and>
   scissor_tuple ex_pf 600 (ImVec4 10 10 100 100) = (10, 500, 90, 90) \<and>
   makeScissorKey ex_pf 600 (ImVec4 10 10 100 100) = 25333134483783690 \<and>
   clamped_key ex_pf 600 (ImVec4 10 10 100 100) = 25333134483783690 \<and>
   pack_key (10, 500, 90, 90) = 25333134483783690 \<and>
   platform_ok ex_pf \<and> bridge_ok (new_bridge 0) \<and> \<not> zero_area ex_pf ex_io \<and>
   update ex_pf ex_io ex_data (new_bridge 0) = Some ex_state \<and>
   map prim_material (emitted ex_state) = [6, 6, 7] \<and>
   map (\<lambda>pcmd. scissor_tuple ex_pf (snd (fb_size ex_pf ex_io)) (ClipRect pcmd))
       (drawn (frame_cmds ex_pf ex_io ex_data)) =
     [(0, 0, 800, 600), (0, 0, 800, 600), (20, 500, 80, 80)]"
proof -
  note t = scissor_key_packs_cast_components
    [where pf = ex_pf and fbheight = 600 and clipRect = "ImVec4 10 10 100 100"
       and s = "new_bridge 0" and io = ex_io and imguiData = ex_data]
  have r: "rect_in_range ex_pf 600 (ImVec4 10 10 100 100)"
    by (simp add: rect_in_range_def representable_u16_def ex_pf_def)
  have tup: "scissor_tuple ex_pf 600 (ImVec4 10 10 100 100) = (10, 500, 90, 90)"
    by (simp add: scissor_tuple_def to_uint16_def ex_pf_def)
  have key: "makeScissorKey ex_pf 600 (ImVec4 10 10 100 100) = 25333134483783690"
    by (simp add: makeScissorKey_def to_uint16_def ex_pf_def)
  from t r have cl: "clamped_key ex_pf 600 (ImVec4 10 10 100 100) = 25333134483783690"
    by (simp add: key)
  from t have pk: "pack_key (10, 500, 90, 90) = 25333134483783690"
    by (simp add: key tup)
  have p: "map prim_material (emitted ex_state) = [6, 6, 7]" by (simp add: ex_emitted)
  have d: "map (\<lambda>pcmd. scissor_tuple ex_pf (snd (fb_size ex_pf ex_io)) (ClipRect pcmd))
       (drawn (frame_cmds ex_pf ex_io ex_data)) =
     [(0, 0, 800, 600), (0, 0, 800, 600), (20, 500, 80, 80)]"
    unfolding ex_frame_cmds
    by (simp add: drawn_def scissor_tuple_def to_uint16_def fb_size_def to_int_def
        ex_pf_def ex_io_def)
  from r tup key cl pk ex_platform_ok bridge_ok_new [of 0] ex_not_zero ex_update p d
  show ?thesis by blast
qed

text \<open>Dear ImGui's ``no clipping'' rectangle has negative coordinates. On the example
  platform, where a conversion out of range wraps around, its key holds 57344 and 57944
  where the clamped components are 0.\<close>

theorem scissor_key_not_clamped:
  "scissor_tuple ex_pf 600 ex_rect = (57344, 57944, 16384, 16384) \<and>
   makeScissorKey ex_pf 600 ex_rect = 4611756390969040896 \<and>
   clamped_key ex_pf 600 ex_rect = 4611756387171565568 \<and>
   makeScissorKey ex_pf 600 ex_rect \<noteq> clamped_key ex_pf 600 ex_rect"
proof -
  have t: "scissor_tuple ex_pf 600 ex_rect = (57344, 57944, 16384, 16384)"
    by (simp add: scissor_tuple_def to_uint16_def ex_pf_def ex_rect_def)
  have k: "makeScissorKey ex_pf 600 ex_rect = 4611756390969040896"
    by (simp add: makeScissorKey_def to_uint16_def ex_pf_def ex_rect_def)
  have c: "clamped_key ex_pf 600 ex_rect = 4611756387171565568"
    by (simp add: clamped_key_def clamped_def clamp_u16_def ex_pf_def ex_rect_def)
  from t k c show ?thesis by simp
qed

end
